theory Spec2Isabelle
  imports Main "HOL-Library.Sublist"
begin

section \<open>Strings and bytes\<close>

text \<open>
  The request path of a \<^verbatim>\<open>BaseHTTPRequestHandler\<close> is the request line decoded as
  ISO-8859-1, so every character of \<^verbatim>\<open>self.path\<close> is a code point below 256: a
  \<^typ>\<open>char\<close>. Fixture files and response bodies are \<^verbatim>\<open>bytes\<close>, again lists of
  \<^typ>\<open>char\<close>.
\<close>

type_synonym bytes = "char list"

definition newline :: char where
  "newline = CHR 0x0A"

definition CRLF :: bytes where
  "CRLF = [CHR 0x0D, CHR 0x0A]"

text \<open>
  \<^verbatim>\<open>\d\<close>: in a bytes pattern the ASCII digits; in a str pattern every Unicode decimal
  digit, of which the code points below 256 hold only the ASCII ones.
\<close>

definition is_digit :: "char \<Rightarrow> bool" where
  "is_digit c = (c \<in> set ''0123456789'')"

text \<open>\<^verbatim>\<open>str.encode("utf8")\<close> on code points below 256.\<close>

definition encode_utf8_char :: "char \<Rightarrow> bytes" where
  "encode_utf8_char c =
     (let n = (of_char c :: nat)
      in if n < 128 then [c]
         else [char_of (192 + n div 64), char_of (128 + n mod 64)])"

definition encode_utf8 :: "string \<Rightarrow> bytes" where
  "encode_utf8 s = concat (map encode_utf8_char s)"

text \<open>\<^verbatim>\<open>str(n)\<close> for a non-negative integer.\<close>

definition digit_char :: "nat \<Rightarrow> char" where
  "digit_char d = ''0123456789'' ! d"

function str_nat :: "nat \<Rightarrow> string" where
  "str_nat n = (if n < 10 then [digit_char n] else str_nat (n div 10) @ [digit_char (n mod 10)])"
  by pat_completeness auto
termination
  by (relation "measure id") auto

declare str_nat.simps [simp del]

text \<open>
  \<^verbatim>\<open>s.replace(old, new)\<close>: every non-overlapping occurrence of \<open>old\<close>, found from
  the left. With an empty \<open>old\<close>, Python puts \<open>new\<close> before every character and at the
  end.
\<close>

function replace_str :: "string \<Rightarrow> string \<Rightarrow> string \<Rightarrow> string" where
  "replace_str old new s =
     (if old = [] then new @ concat (map (\<lambda>c. c # new) s)
      else if s = [] then []
      else if prefix old s then new @ replace_str old new (drop (length old) s)
      else hd s # replace_str old new (tl s))"
  by pat_completeness auto
termination
  by (relation "measure (\<lambda>(old, new, s). length s)") auto

declare replace_str.simps [simp del]

text \<open>\<^verbatim>\<open>s.find(sub)\<close>: the lowest index where \<open>sub\<close> starts, or \<open>-1\<close>.\<close>

fun find_str :: "string \<Rightarrow> string \<Rightarrow> int" where
  "find_str [] sub = (if sub = [] then 0 else -1)"
| "find_str (c # cs) sub =
     (if prefix sub (c # cs) then 0
      else (let r = find_str cs sub in if r = -1 then -1 else r + 1))"

text \<open>\<^verbatim>\<open>os.path.join(a, b)\<close> on POSIX paths.\<close>

definition os_path_join :: "string \<Rightarrow> string \<Rightarrow> string" where
  "os_path_join a b =
     (if b \<noteq> [] \<and> hd b = CHR ''/'' then b
      else if a = [] \<or> last a = CHR ''/'' then a @ b
      else a @ ''/'' @ b)"

section \<open>Regular expressions\<close>

text \<open>
  The fragment of Python's \<^verbatim>\<open>re\<close> that the two patterns of the module use: literal
  text, \<^verbatim>\<open>\d\<close>, \<^verbatim>\<open>.\<close>, concatenation, greedy \<^verbatim>\<open>+\<close>, \<^verbatim>\<open>{n}\<close> and one capturing
  group. \<open>rx_match\<close> is the backtracking matcher: it returns every way the pattern
  matches at the start of the input, in the order in which \<^verbatim>\<open>re\<close> tries them, each as
  the input left over and the text of group 1. The match \<^verbatim>\<open>re\<close> reports is the first.
\<close>

datatype rx =
    Lit string
  | Digit
  | AnyChar
  | Cat rx rx
  | Plus rx
  | Times nat rx
  | Group rx

type_synonym mstate = "string \<times> string option"

fun rx_size :: "rx \<Rightarrow> nat" where
  "rx_size (Lit w) = 1"
| "rx_size Digit = 1"
| "rx_size AnyChar = 1"
| "rx_size (Cat r1 r2) = Suc (rx_size r1 + rx_size r2)"
| "rx_size (Plus r) = Suc (rx_size r)"
| "rx_size (Times n r) = Suc (n + rx_size r)"
| "rx_size (Group r) = Suc (rx_size r)"

function rx_match :: "rx \<Rightarrow> mstate \<Rightarrow> mstate list" where
  "rx_match (Lit w) (s, g) = (if prefix w s then [(drop (length w) s, g)] else [])"
| "rx_match Digit (s, g) =
     (case s of [] \<Rightarrow> [] | x # xs \<Rightarrow> if is_digit x then [(xs, g)] else [])"
| "rx_match AnyChar (s, g) =
     (case s of [] \<Rightarrow> [] | x # xs \<Rightarrow> if x \<noteq> newline then [(xs, g)] else [])"
| "rx_match (Cat r1 r2) (s, g) = concat (map (rx_match r2) (rx_match r1 (s, g)))"
| "rx_match (Plus r) (s, g) =
     concat (map (\<lambda>st. (if length (fst st) < length s then rx_match (Plus r) st else []) @ [st])
                 (rx_match r (s, g)))"
| "rx_match (Times 0 r) (s, g) = [(s, g)]"
| "rx_match (Times (Suc n) r) (s, g) = concat (map (rx_match (Times n r)) (rx_match r (s, g)))"
| "rx_match (Group r) (s, g) =
     map (\<lambda>st. (fst st, Some (take (length s - length (fst st)) s))) (rx_match r (s, g))"
  by pat_completeness auto
termination
  by (relation "measures [\<lambda>(r, st). rx_size r, \<lambda>(r, st). length (fst st)]") auto

declare rx_match.simps [simp del]

text \<open>
  A replacement template: literal text and references to group 1 (\<^verbatim>\<open>\1\<close>). A group
  that did not take part in the match expands to the empty string.
\<close>

datatype tpl = Txt string | Ref1

fun expand :: "tpl list \<Rightarrow> string option \<Rightarrow> string" where
  "expand [] g = []"
| "expand (Txt w # ts) g = w @ expand ts g"
| "expand (Ref1 # ts) g = (case g of None \<Rightarrow> [] | Some w \<Rightarrow> w) @ expand ts g"

text \<open>
  \<^verbatim>\<open>pattern.sub(repl, s)\<close>: the leftmost match is replaced and the search goes on
  behind it; where the pattern does not match, the character is copied. An empty match
  is replaced too and the search moves one character on.
\<close>

function re_sub :: "rx \<Rightarrow> tpl list \<Rightarrow> string \<Rightarrow> string" where
  "re_sub r repl s =
     (case rx_match r (s, None) of
        [] \<Rightarrow> (if s = [] then [] else hd s # re_sub r repl (tl s))
      | st # _ \<Rightarrow>
          if length (fst st) < length s
          then expand repl (snd st) @ re_sub r repl (fst st)
          else expand repl (snd st) @ (if s = [] then [] else hd s # re_sub r repl (tl s)))"
  by pat_completeness auto
termination
  by (relation "measure (\<lambda>(r, repl, s). length s)") auto

declare re_sub.simps [simp del]

section \<open>Key derivation\<close>

text \<open>\<^verbatim>\<open>REPLACE_PORT_RE = re.compile(rb"http://127.0.0.1:\d{4}")\<close>\<close>

definition REPLACE_PORT_RE :: rx where
  "REPLACE_PORT_RE =
     Cat (Lit ''http://127'') (Cat AnyChar (Cat (Lit ''0'') (Cat AnyChar (Cat (Lit ''0'')
       (Cat AnyChar (Cat (Lit ''1:'') (Times 4 Digit)))))))"

text \<open>\<^verbatim>\<open>REPLACE_PRECISION_RE = re.compile(r"(\d+\.\d{4})\d+")\<close>\<close>

definition REPLACE_PRECISION_RE :: rx where
  "REPLACE_PRECISION_RE =
     Cat (Group (Cat (Plus Digit) (Cat (Lit ''.'') (Times 4 Digit)))) (Plus Digit)"

definition reserved_chars :: string where
  "reserved_chars = ''&#/?=:,()''"

definition sanitize_url :: "string \<Rightarrow> string" where
  "sanitize_url url =
     (let text = foldl (\<lambda>text c. replace_str [c] ''_'' text) url reserved_chars;
          text = re_sub REPLACE_PRECISION_RE [Ref1] text
      in replace_str ''_fakeogcapi'' ''request'' text)"

section \<open>The handler\<close>

text \<open>The process-wide toggles and the directory of the fixture files.\<close>

record config =
  RECORD :: bool
  RECORD_NEW_ONLY :: bool
  BASE_TEST_DATA_PATH :: string

definition TEST_DATA_SOURCE_ENDPOINT :: string where
  "TEST_DATA_SOURCE_ENDPOINT = ''https://maps.gnosis.earth/ogcapi''"

text \<open>\<^verbatim>\<open>urllib.parse.urlsplit(TEST_DATA_SOURCE_ENDPOINT).path\<close>\<close>

definition ENDPOINT_PATH :: string where
  "ENDPOINT_PATH = ''/ogcapi''"

text \<open>
  What the handler reads of \<^verbatim>\<open>self\<close>: the request path, \<^verbatim>\<open>self.address_string()\<close>
  (the address of the peer, a numeric IP address) and \<^verbatim>\<open>self.server.server_port\<close>.
  The address the server is bound to, \<^verbatim>\<open>self.server.server_address[0]\<close>, is there too;
  the handler does not read it.
\<close>

record request =
  path :: string
  address_string :: string
  server_port :: nat
  server_address :: string

text \<open>What the handler reads of a \<^verbatim>\<open>requests.Response\<close>.\<close>

record response =
  status_code :: nat
  reason :: string
  headers :: "(string \<times> string) list"
  content :: bytes

text \<open>
  Exceptions, by what \<^verbatim>\<open>except IOError\<close> catches: \<^verbatim>\<open>IOError\<close> is \<^verbatim>\<open>OSError\<close>, and
  \<^verbatim>\<open>requests.exceptions.RequestException\<close>, the base class of the transport errors
  that \<^verbatim>\<open>requests.get\<close> raises, derives from \<^verbatim>\<open>IOError\<close>. \<^verbatim>\<open>ValueError\<close>, which
  \<^verbatim>\<open>open\<close> raises for a name with a NUL byte, does not.
\<close>

datatype exn = OSError | RequestException | ValueError | OtherException

fun is_IOError :: "exn \<Rightarrow> bool" where
  "is_IOError OSError = True"
| "is_IOError RequestException = True"
| "is_IOError ValueError = False"
| "is_IOError OtherException = False"

text \<open>
  The Fixture Store, name by name:
  \<^item> \<open>Data d\<close>: a file that can be read and written;
  \<^item> \<open>ReadOnly d\<close>: a file that can be read and not written;
  \<^item> \<open>Faulty\<close>: a path that exists and whose \<^verbatim>\<open>open\<close> or \<^verbatim>\<open>read\<close> raises \<^verbatim>\<open>OSError\<close>
    in every mode (a directory, a file without any permission, a failing disk);
  \<^item> \<open>Rejected\<close>: a name under which the file system makes no file (it is too long):
    nothing exists there and \<^verbatim>\<open>open\<close> raises \<^verbatim>\<open>OSError\<close>;
  \<^item> no entry: no file. No file has a NUL byte in its name, so such a name has no
    entry; \<^verbatim>\<open>open\<close> raises \<^verbatim>\<open>ValueError\<close> for it before it asks the file system, and
    \<^verbatim>\<open>os.path.exists\<close> is false.
\<close>

datatype entry = Data bytes | ReadOnly bytes | Faulty | Rejected

type_synonym store = "string \<Rightarrow> entry option"

definition NUL :: char where
  "NUL = CHR 0x00"

definition os_path_exists :: "store \<Rightarrow> string \<Rightarrow> bool" where
  "os_path_exists fs p =
     (case fs p of None \<Rightarrow> False | Some Rejected \<Rightarrow> False | Some e \<Rightarrow> True)"

text \<open>What \<^verbatim>\<open>open\<close> raises where there is no file.\<close>

definition no_file :: "string \<Rightarrow> exn" where
  "no_file p = (if NUL \<in> set p then ValueError else OSError)"

text \<open>\<^verbatim>\<open>open(p, "rb")\<close>, then \<^verbatim>\<open>fd.read()\<close>.\<close>

definition open_read :: "store \<Rightarrow> string \<Rightarrow> exn + bytes" where
  "open_read fs p =
     (case fs p of
        None \<Rightarrow> Inl (no_file p)
      | Some (Data d) \<Rightarrow> Inr d
      | Some (ReadOnly d) \<Rightarrow> Inr d
      | Some Faulty \<Rightarrow> Inl OSError
      | Some Rejected \<Rightarrow> Inl OSError)"

text \<open>\<^verbatim>\<open>open(p, "rb+")\<close>, then \<^verbatim>\<open>fd.read()\<close>: the file must be writable too.\<close>

definition open_update :: "store \<Rightarrow> string \<Rightarrow> exn + bytes" where
  "open_update fs p =
     (case fs p of
        None \<Rightarrow> Inl (no_file p)
      | Some (Data d) \<Rightarrow> Inr d
      | Some (ReadOnly d) \<Rightarrow> Inl OSError
      | Some Faulty \<Rightarrow> Inl OSError
      | Some Rejected \<Rightarrow> Inl OSError)"

text \<open>\<^verbatim>\<open>open(p, "wb+")\<close>: the file is created, or truncated if it exists.\<close>

definition open_truncate :: "store \<Rightarrow> string \<Rightarrow> exn + store" where
  "open_truncate fs p =
     (case fs p of
        None \<Rightarrow> (if NUL \<in> set p then Inl ValueError else Inr (fs(p \<mapsto> Data [])))
      | Some (Data d) \<Rightarrow> Inr (fs(p \<mapsto> Data []))
      | Some (ReadOnly d) \<Rightarrow> Inl OSError
      | Some Faulty \<Rightarrow> Inl OSError
      | Some Rejected \<Rightarrow> Inl OSError)"

definition request_data_path :: "config \<Rightarrow> request \<Rightarrow> string" where
  "request_data_path cfg self =
     os_path_join (BASE_TEST_DATA_PATH cfg) (sanitize_url (path self) @ ''.http_data'')"

definition is_fake :: "request \<Rightarrow> bool" where
  "is_fake self = (find_str (path self) ''/fakeogcapi'' \<noteq> -1)"

definition upstream_url :: "request \<Rightarrow> string" where
  "upstream_url self = TEST_DATA_SOURCE_ENDPOINT @ replace_str ''/fakeogcapi'' [] (path self)"

definition local_uri :: "request \<Rightarrow> bytes" where
  "local_uri self =
     encode_utf8 (''http://'' @ address_string self @ '':'' @ str_nat (server_port self)
                  @ ''/fakeogcapi'')"

definition rewritten_content :: "request \<Rightarrow> response \<Rightarrow> bytes" where
  "rewritten_content self resp =
     (let body = replace_str (encode_utf8 TEST_DATA_SOURCE_ENDPOINT) (local_uri self)
                   (content resp)
      in replace_str (encode_utf8 ENDPOINT_PATH) (local_uri self) body)"

definition status_line :: "response \<Rightarrow> bytes" where
  "status_line resp =
     ''HTTP/1.1 '' @ encode_utf8 (str_nat (status_code resp)) @ '' ''
       @ encode_utf8 (reason resp) @ CRLF"

text \<open>One round of the loop over \<^verbatim>\<open>response.headers.items()\<close>.\<close>

definition add_header :: "bytes \<Rightarrow> bytes \<Rightarrow> string \<times> string \<Rightarrow> bytes" where
  "add_header body data kv =
     (if fst kv = ''Content-Encoding'' then data
      else if fst kv = ''Content-Length''
        then data @ encode_utf8 (fst kv) @ '': '' @ encode_utf8 (str_nat (length body)) @ CRLF
      else data @ encode_utf8 (fst kv) @ '': '' @ encode_utf8 (snd kv) @ CRLF)"

definition record_data :: "request \<Rightarrow> response \<Rightarrow> bytes" where
  "record_data self resp =
     (let body = rewritten_content self resp;
          data = status_line resp;
          data = foldl (add_header body) data (headers resp);
          data = data @ CRLF
      in data @ body)"

text \<open>The replacement of the replay branch.\<close>

definition replay_uri :: "request \<Rightarrow> bytes" where
  "replay_uri self =
     encode_utf8 (''http://'' @ address_string self @ '':'' @ str_nat (server_port self))"

text \<open>
  How the \<^verbatim>\<open>try\<close> block of \<^verbatim>\<open>do_GET\<close> ends: it writes \<open>data\<close> to \<^verbatim>\<open>self.wfile\<close>
  and returns, it raises, or it falls through to the \<^verbatim>\<open>send_error\<close> below it. The
  block is run on the store; it gives the store it leaves and the URLs it fetched with
  \<^verbatim>\<open>requests.get\<close>, whose answers are the parameter \<open>net\<close>. Writing to
  \<^verbatim>\<open>self.wfile\<close> is taken not to fail.
\<close>

datatype flow = Return bytes | Raise exn | Fall

definition do_GET_try ::
  "config \<Rightarrow> (string \<Rightarrow> exn + response) \<Rightarrow> request \<Rightarrow> store \<Rightarrow> flow \<times> store \<times> string list"
where
  "do_GET_try cfg net self fs =
     (let p = request_data_path cfg self
      in if is_fake self \<and> RECORD cfg then
           (if RECORD_NEW_ONLY cfg \<and> os_path_exists fs p then
              (case open_read fs p of
                 Inl e \<Rightarrow> (Raise e, fs, [])
               | Inr data \<Rightarrow> (Return data, fs, []))
            else
              (case open_truncate fs p of
                 Inl e \<Rightarrow> (Raise e, fs, [])
               | Inr fs1 \<Rightarrow>
                   (case net (upstream_url self) of
                      Inl e \<Rightarrow> (Raise e, fs1, [upstream_url self])
                    | Inr resp \<Rightarrow>
                        (let data = record_data self resp
                         in (Return data, fs1(p \<mapsto> Data data), [upstream_url self])))))
         else if find_str (path self) ''/fakeogcapi'' \<noteq> -1 then
           (case open_update fs p of
              Inl e \<Rightarrow> (Raise e, fs, [])
            | Inr data \<Rightarrow>
                (Return (re_sub REPLACE_PORT_RE [Txt (replay_uri self)] data), fs, []))
         else (Fall, fs, []))"

text \<open>
  What the client gets: the bytes written to \<^verbatim>\<open>self.wfile\<close>, the arguments of
  \<^verbatim>\<open>self.send_error\<close>, or an exception that leaves \<^verbatim>\<open>do_GET\<close>.
\<close>

datatype reply = Wrote bytes | SendError nat string string | Raised exn

record result =
  reply :: reply
  store :: store
  fetched :: "string list"

definition not_found :: "request \<Rightarrow> reply" where
  "not_found self =
     SendError 404 (''File Not Found: '' @ path self)
       ''The requested URL was not found on this server.''"

definition do_GET :: "config \<Rightarrow> (string \<Rightarrow> exn + response) \<Rightarrow> request \<Rightarrow> store \<Rightarrow> result" where
  "do_GET cfg net self fs =
     (case do_GET_try cfg net self fs of
        (Return data, fs', urls) \<Rightarrow> \<lparr>reply = Wrote data, store = fs', fetched = urls\<rparr>
      | (Raise e, fs', urls) \<Rightarrow>
          (if is_IOError e then \<lparr>reply = not_found self, store = fs', fetched = urls\<rparr>
           else \<lparr>reply = Raised e, store = fs', fetched = urls\<rparr>)
      | (Fall, fs', urls) \<Rightarrow> \<lparr>reply = not_found self, store = fs', fetched = urls\<rparr>)"


section \<open>The two substitutions in closed form\<close>

text \<open>
  Neither pattern gives the backtracking matcher a choice that matters, so each
  substitution is a scan from the left with one test per position. These are the scans
  that the specification describes; they are proved equal to \<open>re_sub\<close> on the patterns
  below.
\<close>

text \<open>
  A port URL starts here: \<^verbatim>\<open>http://127\<close>, any byte but a newline, \<^verbatim>\<open>0\<close>, any byte
  but a newline, \<^verbatim>\<open>0\<close>, any byte but a newline, \<^verbatim>\<open>1:\<close> and four digits, 21 bytes
  in all.
\<close>

definition port_url_at :: "bytes \<Rightarrow> bool" where
  "port_url_at s \<longleftrightarrow>
     21 \<le> length s \<and> take 10 s = ''http://127''
     \<and> s ! 10 \<noteq> newline \<and> s ! 11 = CHR ''0''
     \<and> s ! 12 \<noteq> newline \<and> s ! 13 = CHR ''0''
     \<and> s ! 14 \<noteq> newline \<and> s ! 15 = CHR ''1'' \<and> s ! 16 = CHR '':''
     \<and> list_all is_digit (take 4 (drop 17 s))"

function rewrite_ports :: "bytes \<Rightarrow> bytes \<Rightarrow> bytes" where
  "rewrite_ports uri s =
     (if port_url_at s then uri @ rewrite_ports uri (drop 21 s)
      else if s = [] then []
      else hd s # rewrite_ports uri (tl s))"
  by pat_completeness auto
termination
  by (relation "measure (\<lambda>(uri, s). length s)") (auto simp: port_url_at_def)

declare rewrite_ports.simps [simp del]

text \<open>
  A decimal number starts here: a run of digits, a point and a run of at least five
  digits. It is kept up to the fourth digit behind the point; the scan goes on behind
  the last digit.
\<close>

definition decimal_at :: "string \<Rightarrow> (string \<times> string) option" where
  "decimal_at s =
     (let whole = takeWhile is_digit s; r = dropWhile is_digit s
      in if whole \<noteq> [] \<and> r \<noteq> [] \<and> hd r = CHR ''.''
            \<and> 5 \<le> length (takeWhile is_digit (tl r))
         then Some (whole @ ''.'' @ take 4 (tl r), dropWhile is_digit (tl r))
         else None)"

function truncate_decimals :: "string \<Rightarrow> string" where
  "truncate_decimals s =
     (case decimal_at s of
        Some kr \<Rightarrow> fst kr @ truncate_decimals (snd kr)
      | None \<Rightarrow> if s = [] then [] else hd s # truncate_decimals (tl s))"
  by pat_completeness auto
termination
proof (relation "measure length")
  fix s :: string and kr
  assume "decimal_at s = Some kr"
  then have "dropWhile is_digit s \<noteq> []"
    and "snd kr = dropWhile is_digit (tl (dropWhile is_digit s))"
    by (auto simp: decimal_at_def Let_def split: if_splits)
  moreover have "length (dropWhile is_digit (tl (dropWhile is_digit s)))
      \<le> length (tl (dropWhile is_digit s))"
    by (rule length_dropWhile_le)
  moreover have "length (dropWhile is_digit s) \<le> length s"
    by (rule length_dropWhile_le)
  ultimately show "(snd kr, s) \<in> measure length"
    by (cases "dropWhile is_digit s") auto
qed auto

declare truncate_decimals.simps [simp del]

text \<open>Every reserved character gives way to the filler.\<close>

definition fill_reserved :: "string \<Rightarrow> string" where
  "fill_reserved s = map (\<lambda>c. if c \<in> set reserved_chars then CHR ''_'' else c) s"

text \<open>
  A dotted chain: two points with nothing but digits between them, as in
  \<^verbatim>\<open>1.234567.891234\<close>.
\<close>

fun dot_chain :: "string \<Rightarrow> bool" where
  "dot_chain [] = False"
| "dot_chain (c # cs) =
     ((c = CHR ''.'' \<and> dropWhile is_digit cs \<noteq> [] \<and> hd (dropWhile is_digit cs) = CHR ''.'')
      \<or> dot_chain cs)"

text \<open>No decimal number starts anywhere in the text.\<close>

fun calm :: "string \<Rightarrow> bool" where
  "calm [] = True"
| "calm (c # cs) = (decimal_at (c # cs) = None \<and> calm cs)"

section \<open>Example runs\<close>

definition cfg_replay :: config where
  "cfg_replay = \<lparr>RECORD = False, RECORD_NEW_ONLY = True, BASE_TEST_DATA_PATH = ''data/ogcapi''\<rparr>"

definition cfg_record :: config where
  "cfg_record = \<lparr>RECORD = True, RECORD_NEW_ONLY = False, BASE_TEST_DATA_PATH = ''data/ogcapi''\<rparr>"


definition req_collections :: request where
  "req_collections =
     \<lparr>path = ''/fakeogcapi/collections'', address_string = ''127.0.0.1'', server_port = 8081,
      server_address = ''127.0.0.1''\<rparr>"

definition req_missing :: request where
  "req_missing =
     \<lparr>path = ''/fakeogcapi/missing'', address_string = ''127.0.0.1'', server_port = 8081,
      server_address = ''127.0.0.1''\<rparr>"

definition collections_key :: string where
  "collections_key = ''data/ogcapi/request_collections.http_data''"

text \<open>A store with one record, made while the server was bound to port 54321.\<close>

definition old_record :: bytes where
  "old_record = ''HTTP/1.1 200 OK'' @ CRLF @ CRLF @ ''see http://127.0.0.1:54321/fakeogcapi/x''"

definition store_one :: store where
  "store_one = Map.empty(collections_key \<mapsto> Data old_record)"

text \<open>A store with one record, made while the server was bound to port 8080.\<close>

definition good_record :: bytes where
  "good_record = ''HTTP/1.1 200 OK'' @ CRLF @ CRLF @ ''see http://127.0.0.1:8080/fakeogcapi/x''"

definition store_two :: store where
  "store_two = Map.empty(collections_key \<mapsto> Data good_record)"

text \<open>
  The same path, asked by another peer of a server on another port that is bound to
  every address of its host.
\<close>

definition req_elsewhere :: request where
  "req_elsewhere =
     \<lparr>path = ''/fakeogcapi/collections'', address_string = ''10.0.0.7'', server_port = 54321,
      server_address = ''0.0.0.0''\<rparr>"

text \<open>A path with a NUL byte, and a path whose record is made from an upstream 404.\<close>

definition req_nul :: request where
  "req_nul =
     \<lparr>path = ''/fakeogcapi/'' @ [NUL], address_string = ''127.0.0.1'', server_port = 8081,
      server_address = ''127.0.0.1''\<rparr>"

definition req_lakes :: request where
  "req_lakes =
     \<lparr>path = ''/fakeogcapi/lakes'', address_string = ''10.0.0.7'', server_port = 54321,
      server_address = ''0.0.0.0''\<rparr>"

definition lakes_key :: string where
  "lakes_key = ''data/ogcapi/request_lakes.http_data''"

text \<open>
  A store with one record in which bytes that are no URL of the loopback address match
  the port pattern.
\<close>

definition wild_record :: bytes where
  "wild_record = ''HTTP/1.1 200 OK'' @ CRLF @ CRLF @ ''see http://127x0y0z1:1234/x''"

definition store_wild :: store where
  "store_wild = Map.empty(collections_key \<mapsto> Data wild_record)"

text \<open>An upstream that cannot be reached, and one that answers.\<close>

definition net_down :: "string \<Rightarrow> exn + response" where
  "net_down url = Inl RequestException"

definition upstream_response :: response where
  "upstream_response =
     \<lparr>status_code = 200, reason = ''OK'',
      headers = [(''Content-Encoding'', ''gzip''), (''Content-Length'', ''31'')],
      content = ''see /ogcapi/collections/x''\<rparr>"




text \<open>A store with no file, and one whose only record may be read but not written.\<close>

definition store_none :: store where
  "store_none = Map.empty"

definition store_locked :: store where
  "store_locked = Map.empty(collections_key \<mapsto> ReadOnly good_record)"

section \<open>The matcher on the two patterns\<close>

lemma rx_match_Cat_Lit:
  "rx_match (Cat (Lit w) r) (s, g) = (if prefix w s then rx_match r (drop (length w) s, g) else [])"
  by (simp add: rx_match.simps)

lemma rx_match_Cat_AnyChar:
  "rx_match (Cat AnyChar r) (s, g) =
     (if s \<noteq> [] \<and> hd s \<noteq> newline then rx_match r (tl s, g) else [])"
  by (cases s) (simp_all add: rx_match.simps)

lemma rx_match_Times_Digit:
  "rx_match (Times n Digit) (s, g) =
     (if n \<le> length s \<and> list_all is_digit (take n s) then [(drop n s, g)] else [])"
proof (induction n arbitrary: s)
  case 0
  then show ?case by (simp add: rx_match.simps)
next
  case (Suc n)
  show ?case
  proof (cases s)
    case Nil
    then show ?thesis by (simp add: rx_match.simps)
  next
    case (Cons x xs)
    then show ?thesis using Suc [of xs] by (simp add: rx_match.simps)
  qed
qed

lemma port_match:
  "rx_match REPLACE_PORT_RE (s, g) = (if port_url_at s then [(drop 21 s, g)] else [])"
proof (cases "21 \<le> length s")
  case False
  have "rx_match REPLACE_PORT_RE (s, g) = []"
    using False
    unfolding REPLACE_PORT_RE_def rx_match_Cat_Lit rx_match_Cat_AnyChar rx_match_Times_Digit
    by (auto simp: prefix_def)
  with False show ?thesis by (simp add: port_url_at_def)
next
  case True
  define xs where "xs = take 21 s"
  have "length xs = 21"
    using True by (simp add: xs_def)
  then obtain c0 c1 c2 c3 c4 c5 c6 c7 c8 c9 c10 c11 c12 c13 c14 c15 c16 c17 c18 c19 c20
    where t: "xs = [c0, c1, c2, c3, c4, c5, c6, c7, c8, c9, c10, c11, c12, c13, c14, c15, c16, c17, c18, c19, c20]"
    by (auto simp: eval_nat_numeral length_Suc_conv)
  have s: "s = [c0, c1, c2, c3, c4, c5, c6, c7, c8, c9, c10, c11, c12, c13, c14, c15, c16, c17, c18, c19, c20] @ drop 21 s"
    using t append_take_drop_id [of 21 s] by (simp add: xs_def)
  show ?thesis
    apply (subst (1 2) s)
    unfolding REPLACE_PORT_RE_def rx_match_Cat_Lit rx_match_Cat_AnyChar rx_match_Times_Digit port_url_at_def
    apply (simp add: eval_nat_numeral)
    using s apply auto
    done
qed

lemma plus_digit_Nil: "rx_match (Plus Digit) ([], g) = []"
  by (simp add: rx_match.simps)

lemma plus_digit_Cons:
  "rx_match (Plus Digit) (x # xs, g) =
     (if is_digit x then rx_match (Plus Digit) (xs, g) @ [(xs, g)] else [])"
  by (simp add: rx_match.simps(2,5))

lemma plus_digit_none: "takeWhile is_digit t = [] \<Longrightarrow> rx_match (Plus Digit) (t, g) = []"
  by (cases t) (simp_all add: plus_digit_Nil plus_digit_Cons split: if_splits)

lemma plus_digit_first:
  "takeWhile is_digit t \<noteq> [] \<Longrightarrow>
     \<exists>others. rx_match (Plus Digit) (t, g) = (dropWhile is_digit t, g) # others"
proof (induction t)
  case Nil
  then show ?case by simp
next
  case (Cons x xs)
  then have x: "is_digit x"
    by (simp split: if_splits)
  show ?case
  proof (cases "takeWhile is_digit xs = []")
    case True
    then have "dropWhile is_digit xs = xs"
      by (cases xs) (simp_all split: if_splits)
    with True x show ?thesis
      by (simp add: plus_digit_Cons plus_digit_none)
  next
    case False
    with Cons.IH obtain others
      where "rx_match (Plus Digit) (xs, g) = (dropWhile is_digit xs, g) # others"
      by blast
    with x show ?thesis
      by (simp add: plus_digit_Cons)
  qed
qed

lemma Cat_plus_digit_Cons:
  "is_digit x \<Longrightarrow>
     rx_match (Cat (Plus Digit) r) (x # xs, g) =
       rx_match (Cat (Plus Digit) r) (xs, g) @ rx_match r (xs, g)"
  by (simp add: rx_match.simps(4) plus_digit_Cons)

lemma Cat_plus_digit_none:
  "takeWhile is_digit s = [] \<Longrightarrow> rx_match (Cat (Plus Digit) r) (s, g) = []"
  by (simp add: rx_match.simps(4) plus_digit_none)

lemma point_digits_match:
  "rx_match (Cat (Lit ''.'') (Times 4 Digit)) (t, g) =
     (if t \<noteq> [] \<and> hd t = CHR ''.'' \<and> 4 \<le> length (tl t) \<and> list_all is_digit (take 4 (tl t))
      then [(drop 4 (tl t), g)] else [])"
  unfolding rx_match_Cat_Lit rx_match_Times_Digit
  by (cases t) (auto simp: drop_Suc)

lemma point_digits_none:
  "t = [] \<or> is_digit (hd t) \<Longrightarrow> rx_match (Cat (Lit ''.'') (Times 4 Digit)) (t, g) = []"
  unfolding point_digits_match by (auto simp: is_digit_def)

lemma takeWhile_Nil_dropWhile: "takeWhile P xs = [] \<Longrightarrow> dropWhile P xs = xs"
  by (cases xs) (simp_all split: if_splits)

lemma whole_part_match:
  "rx_match (Cat (Plus Digit) (Cat (Lit ''.'') (Times 4 Digit))) (s, g) =
     (if takeWhile is_digit s \<noteq> []
      then rx_match (Cat (Lit ''.'') (Times 4 Digit)) (dropWhile is_digit s, g) else [])"
proof (induction s)
  case Nil
  then show ?case by (simp add: Cat_plus_digit_none)
next
  case (Cons x xs)
  show ?case
  proof (cases "is_digit x")
    case False
    then show ?thesis by (simp add: Cat_plus_digit_none)
  next
    case True
    note step = Cat_plus_digit_Cons [OF True, of "Cat (Lit ''.'') (Times 4 Digit)" xs g]
    show ?thesis
    proof (cases "takeWhile is_digit xs = []")
      case e: True
      with True Cons.IH show ?thesis
        unfolding step by (simp add: takeWhile_Nil_dropWhile)
    next
      case ne: False
      then have "xs \<noteq> [] \<and> is_digit (hd xs)"
        by (cases xs) (simp_all split: if_splits)
      then have "rx_match (Cat (Lit ''.'') (Times 4 Digit)) (xs, g) = []"
        by (simp add: point_digits_none)
      with ne True Cons.IH show ?thesis
        unfolding step by simp
    qed
  qed
qed

lemma takeWhile_longer_iff:
  "Suc n \<le> length (takeWhile P f) \<longleftrightarrow>
     n \<le> length f \<and> list_all P (take n f) \<and> takeWhile P (drop n f) \<noteq> []"
proof (induction n arbitrary: f)
  case 0
  then show ?case by (cases f) auto
next
  case (Suc n)
  then show ?case by (cases f) auto
qed

lemma dropWhile_drop:
  "n \<le> length f \<Longrightarrow> list_all P (take n f) \<Longrightarrow> dropWhile P (drop n f) = dropWhile P f"
proof (induction n arbitrary: f)
  case 0
  then show ?case by simp
next
  case (Suc n)
  then show ?case by (cases f) auto
qed

lemma re_sub_miss:
  "rx_match r (s, None) = [] \<Longrightarrow>
     re_sub r repl s = (if s = [] then [] else hd s # re_sub r repl (tl s))"
  by (subst re_sub.simps) simp

lemma re_sub_hit:
  "rx_match r (s, None) = (rest, g) # others \<Longrightarrow> length rest < length s \<Longrightarrow>
     re_sub r repl s = expand repl g @ re_sub r repl rest"
  by (subst re_sub.simps) simp

lemma re_sub_port: "re_sub REPLACE_PORT_RE [Txt uri] s = rewrite_ports uri s"
proof (induction uri s rule: rewrite_ports.induct)
  case (1 uri s)
  show ?case
  proof (cases "port_url_at s")
    case True
    then have "21 \<le> length s"
      by (simp add: port_url_at_def)
    then have short: "length (drop 21 s) < length s"
      by simp
    have m: "rx_match REPLACE_PORT_RE (s, None) = (drop 21 s, None) # []"
      using True by (simp add: port_match)
    have "re_sub REPLACE_PORT_RE [Txt uri] s = uri @ re_sub REPLACE_PORT_RE [Txt uri] (drop 21 s)"
      using re_sub_hit [OF m short, of "[Txt uri]"] by simp
    also have "\<dots> = uri @ rewrite_ports uri (drop 21 s)"
      using 1(1) [OF True] by simp
    also have "\<dots> = rewrite_ports uri s"
      using True by (subst (2) rewrite_ports.simps) simp
    finally show ?thesis .
  next
    case False
    have m: "rx_match REPLACE_PORT_RE (s, None) = []"
      using False by (simp add: port_match)
    show ?thesis
    proof (cases "s = []")
      case True
      then show ?thesis
        using False re_sub_miss [OF m, of "[Txt uri]"]
        by (subst rewrite_ports.simps) simp
    next
      case ne: False
      have "re_sub REPLACE_PORT_RE [Txt uri] s = hd s # re_sub REPLACE_PORT_RE [Txt uri] (tl s)"
        using re_sub_miss [OF m, of "[Txt uri]"] ne by simp
      also have "\<dots> = hd s # rewrite_ports uri (tl s)"
        using 1(2) [OF False ne] by simp
      also have "\<dots> = rewrite_ports uri s"
        using False ne by (subst (2) rewrite_ports.simps) simp
      finally show ?thesis .
    qed
  qed
qed

lemma precision_unfold:
  "rx_match REPLACE_PRECISION_RE (s, g) =
     (if takeWhile is_digit s \<noteq> [] \<and> dropWhile is_digit s \<noteq> []
         \<and> hd (dropWhile is_digit s) = CHR ''.''
         \<and> 4 \<le> length (tl (dropWhile is_digit s))
         \<and> list_all is_digit (take 4 (tl (dropWhile is_digit s)))
      then rx_match (Plus Digit)
             (drop 4 (tl (dropWhile is_digit s)),
              Some (take (length s - length (drop 4 (tl (dropWhile is_digit s)))) s))
      else [])"
  unfolding REPLACE_PRECISION_RE_def
  apply (subst rx_match.simps(4))
  apply (subst rx_match.simps(8))
  apply (auto simp: whole_part_match point_digits_match)
  done

lemma decimal_at_None_match:
  assumes "decimal_at s = None"
  shows "rx_match REPLACE_PRECISION_RE (s, g) = []"
proof (cases "takeWhile is_digit s \<noteq> [] \<and> dropWhile is_digit s \<noteq> []
         \<and> hd (dropWhile is_digit s) = CHR ''.''
         \<and> 4 \<le> length (tl (dropWhile is_digit s))
         \<and> list_all is_digit (take 4 (tl (dropWhile is_digit s)))")
  case False
  then show ?thesis
    by (subst precision_unfold) (simp only: if_False)
next
  case True
  have "\<not> Suc 4 \<le> length (takeWhile is_digit (tl (dropWhile is_digit s)))"
    using assms True by (simp add: decimal_at_def Let_def split: if_splits)
  with True have "takeWhile is_digit (drop 4 (tl (dropWhile is_digit s))) = []"
    unfolding takeWhile_longer_iff by blast
  then have "rx_match (Plus Digit)
             (drop 4 (tl (dropWhile is_digit s)),
              Some (take (length s - length (drop 4 (tl (dropWhile is_digit s)))) s)) = []"
    by (rule plus_digit_none)
  with True show ?thesis
    by (subst precision_unfold) (simp only: simp_thms if_True)
qed

lemma decimal_at_Some_match:
  assumes "decimal_at s = Some (kept, rest)"
  shows "\<exists>others. rx_match REPLACE_PRECISION_RE (s, g) = (rest, Some kept) # others"
proof -
  define r where "r = dropWhile is_digit s"
  define f where "f = tl r"
  from assms have c: "takeWhile is_digit s \<noteq> []" "r \<noteq> []" "hd r = CHR ''.''"
      "Suc 4 \<le> length (takeWhile is_digit f)"
    and k: "kept = takeWhile is_digit s @ ''.'' @ take 4 f"
    and rest: "rest = dropWhile is_digit f"
    by (auto simp: decimal_at_def Let_def r_def f_def split: if_splits)
  from c(4) have f: "4 \<le> length f" "list_all is_digit (take 4 f)"
      "takeWhile is_digit (drop 4 f) \<noteq> []"
    unfolding takeWhile_longer_iff by simp_all
  have "r = CHR ''.'' # f"
    using c(2,3) by (cases r) (simp_all add: f_def)
  moreover have "s = takeWhile is_digit s @ r"
    by (simp add: r_def)
  ultimately have s: "s = takeWhile is_digit s @ CHR ''.'' # f"
    by simp
  have "length s = length (takeWhile is_digit s) + 1 + length f"
    by (subst s) simp
  then have len: "length s - length (drop 4 f) = length (takeWhile is_digit s) + 5"
    using f(1) by simp
  have cap: "take (length s - length (drop 4 f)) s = kept"
    unfolding len k by (subst s) (simp add: numeral_eq_Suc)
  obtain others where
    "rx_match (Plus Digit) (drop 4 f, Some kept) = (dropWhile is_digit (drop 4 f), Some kept) # others"
    using plus_digit_first [OF f(3)] by blast
  moreover have "dropWhile is_digit (drop 4 f) = rest"
    using f(1,2) by (simp add: rest dropWhile_drop)
  moreover have "takeWhile is_digit s \<noteq> [] \<and> dropWhile is_digit s \<noteq> []
         \<and> hd (dropWhile is_digit s) = CHR ''.''
         \<and> 4 \<le> length (tl (dropWhile is_digit s))
         \<and> list_all is_digit (take 4 (tl (dropWhile is_digit s)))"
    using c f unfolding r_def f_def by blast
  ultimately have "rx_match REPLACE_PRECISION_RE (s, g) = (rest, Some kept) # others"
    using cap by (subst precision_unfold) (simp only: simp_thms if_True r_def [symmetric] f_def [symmetric])
  then show ?thesis ..
qed

lemma decimal_at_shorter: "decimal_at s = Some kr \<Longrightarrow> length (snd kr) < length s"
proof -
  assume "decimal_at s = Some kr"
  then have "dropWhile is_digit s \<noteq> []"
    and "snd kr = dropWhile is_digit (tl (dropWhile is_digit s))"
    by (auto simp: decimal_at_def Let_def split: if_splits)
  moreover have "length (dropWhile is_digit (tl (dropWhile is_digit s)))
      \<le> length (tl (dropWhile is_digit s))"
    by (rule length_dropWhile_le)
  moreover have "length (dropWhile is_digit s) \<le> length s"
    by (rule length_dropWhile_le)
  ultimately show ?thesis
    by (cases "dropWhile is_digit s") auto
qed

lemma truncate_decimals_hit:
  "decimal_at s = Some (kept, rest) \<Longrightarrow> truncate_decimals s = kept @ truncate_decimals rest"
  by (subst truncate_decimals.simps) simp

lemma truncate_decimals_miss:
  "decimal_at s = None \<Longrightarrow>
     truncate_decimals s = (if s = [] then [] else hd s # truncate_decimals (tl s))"
  by (subst truncate_decimals.simps) simp

lemma re_sub_precision: "re_sub REPLACE_PRECISION_RE [Ref1] s = truncate_decimals s"
proof (induction s rule: truncate_decimals.induct)
  case (1 s)
  show ?case
  proof (cases "decimal_at s")
    case None
    note m = decimal_at_None_match [OF None, of None]
    show ?thesis
    proof (cases "s = []")
      case True
      then show ?thesis
        using re_sub_miss [OF m, of "[Ref1]"] truncate_decimals_miss [OF None] by simp
    next
      case False
      then show ?thesis
        using re_sub_miss [OF m, of "[Ref1]"] truncate_decimals_miss [OF None] 1(1) [OF None False]
        by simp
    qed
  next
    case (Some kr)
    obtain kept rest where kr: "kr = (kept, rest)"
      by (cases kr)
    from Some kr obtain others
      where m: "rx_match REPLACE_PRECISION_RE (s, None) = (rest, Some kept) # others"
      using decimal_at_Some_match by blast
    have short: "length rest < length s"
      using decimal_at_shorter [OF Some] kr by simp
    show ?thesis
      using re_sub_hit [OF m short, of "[Ref1]"] truncate_decimals_hit [of s kept rest]
        Some kr 1(2) [OF Some]
      by simp
  qed
qed

section \<open>Finding the marker\<close>

lemma find_str_ge: "find_str s sub \<ge> -1"
  by (induction s) (auto simp: Let_def)

lemma find_str_sublist: "find_str s sub \<noteq> -1 \<longleftrightarrow> sublist sub s"
proof (induction s)
  case Nil
  then show ?case by simp
next
  case (Cons c cs)
  have "find_str cs sub + 1 \<noteq> -1"
    using find_str_ge [of cs sub] by arith
  with Cons show ?case
    by (auto simp: Let_def sublist_Cons_right)
qed

lemma is_fake_iff: "is_fake self \<longleftrightarrow> sublist ''/fakeogcapi'' (path self)"
  by (simp add: is_fake_def find_str_sublist)

section \<open>Scanning for port URLs\<close>

lemma rewrite_ports_Nil: "rewrite_ports uri [] = []"
  by (subst rewrite_ports.simps) (simp add: port_url_at_def)

lemma rewrite_ports_hit: "port_url_at s \<Longrightarrow> rewrite_ports uri s = uri @ rewrite_ports uri (drop 21 s)"
  by (subst rewrite_ports.simps) simp

lemma rewrite_ports_miss:
  "\<not> port_url_at (c # cs) \<Longrightarrow> rewrite_ports uri (c # cs) = c # rewrite_ports uri cs"
  by (subst rewrite_ports.simps) simp

lemma port_url_at_h: "port_url_at (c # cs) \<Longrightarrow> c = CHR ''h''"
  by (simp add: port_url_at_def numeral_eq_Suc)

lemma rewrite_ports_other:
  "c \<noteq> CHR ''h'' \<Longrightarrow> rewrite_ports uri (c # cs) = c # rewrite_ports uri cs"
  by (rule rewrite_ports_miss) (use port_url_at_h in blast)

lemma port_url_at_literal:
  "port_url_at (''http://127.0.0.1:'' @ d1 # d2 # d3 # d4 # rest)
     \<longleftrightarrow> is_digit d1 \<and> is_digit d2 \<and> is_digit d3 \<and> is_digit d4"
  by (simp add: port_url_at_def newline_def numeral_eq_Suc)

lemma str_nat_8081: "str_nat 8081 = ''8081''"
  by (simp add: str_nat.simps digit_char_def)

lemma encode_utf8_ascii: "\<forall>c\<in>set s. of_char c < (128::nat) \<Longrightarrow> encode_utf8 s = s"
  by (induction s) (simp_all add: encode_utf8_def encode_utf8_char_def)

lemma replay_uri_collections: "replay_uri req_collections = ''http://127.0.0.1:8081''"
  by (simp add: replay_uri_def req_collections_def str_nat_8081 encode_utf8_def encode_utf8_char_def)

lemma rewrite_old_record:
  "rewrite_ports ''http://127.0.0.1:8081'' old_record
     = ''HTTP/1.1 200 OK'' @ CRLF @ CRLF @ ''see http://127.0.0.1:80811/fakeogcapi/x''"
proof -
  have hit: "rewrite_ports ''http://127.0.0.1:8081'' (''http://127.0.0.1:54321/fakeogcapi/x'')
      = ''http://127.0.0.1:8081'' @ rewrite_ports ''http://127.0.0.1:8081'' ''1/fakeogcapi/x''"
    by (subst rewrite_ports_hit) (simp_all add: port_url_at_def newline_def is_digit_def)
  show ?thesis
    unfolding old_record_def CRLF_def
    by (simp add: rewrite_ports_other rewrite_ports_Nil hit)
qed

section \<open>Replacing text\<close>

lemma replace_str_Nil: "old \<noteq> [] \<Longrightarrow> replace_str old new [] = []"
  by (subst replace_str.simps) simp

lemma replace_str_hit:
  "old \<noteq> [] \<Longrightarrow> prefix old s \<Longrightarrow>
     replace_str old new s = new @ replace_str old new (drop (length old) s)"
  by (subst replace_str.simps) auto

lemma replace_str_miss:
  "old \<noteq> [] \<Longrightarrow> \<not> prefix old (c # cs) \<Longrightarrow>
     replace_str old new (c # cs) = c # replace_str old new cs"
  by (subst replace_str.simps) simp

lemma replace_str_other:
  "old \<noteq> [] \<Longrightarrow> c \<noteq> hd old \<Longrightarrow> replace_str old new (c # cs) = c # replace_str old new cs"
  by (cases old) (simp_all add: replace_str_miss)

lemma replace_char:
  "replace_str [c] [d] s = map (\<lambda>x. if x = c then d else x) s"
proof (induction s)
  case Nil
  then show ?case by (simp add: replace_str_Nil)
next
  case (Cons x xs)
  then show ?case
    by (cases "x = c") (simp_all add: replace_str_hit replace_str_other)
qed

lemma fill_reserved_loop:
  "foldl (\<lambda>text c. replace_str [c] ''_'' text) url reserved_chars = fill_reserved url"
  by (simp add: reserved_chars_def fill_reserved_def replace_char)

lemma sanitize_url_closed:
  "sanitize_url url = replace_str ''_fakeogcapi'' ''request'' (truncate_decimals (fill_reserved url))"
  by (simp add: sanitize_url_def Let_def fill_reserved_loop re_sub_precision)

section \<open>Replacing the marker\<close>

lemma marker_Nil: "replace_str ''_fakeogcapi'' ''request'' [] = []"
  by (simp add: replace_str_Nil)

lemma marker_hit:
  "replace_str ''_fakeogcapi'' ''request'' (''_fakeogcapi'' @ s)
     = ''request'' @ replace_str ''_fakeogcapi'' ''request'' s"
  by (subst replace_str_hit) simp_all

lemma marker_other:
  "c \<noteq> CHR ''_'' \<Longrightarrow>
     replace_str ''_fakeogcapi'' ''request'' (c # cs)
       = c # replace_str ''_fakeogcapi'' ''request'' cs"
  by (rule replace_str_other) simp_all

lemma marker_miss:
  "\<not> prefix ''_fakeogcapi'' (c # cs) \<Longrightarrow>
     replace_str ''_fakeogcapi'' ''request'' (c # cs)
       = c # replace_str ''_fakeogcapi'' ''request'' cs"
  by (rule replace_str_miss) simp_all

lemma marker_skip:
  "CHR ''_'' \<notin> set a \<Longrightarrow>
     replace_str ''_fakeogcapi'' ''request'' (a @ b)
       = a @ replace_str ''_fakeogcapi'' ''request'' b"
proof (induction a)
  case Nil
  then show ?case by simp
next
  case (Cons x a)
  then have "x \<noteq> CHR ''_''"
    by auto
  with Cons show ?case
    by (simp add: marker_other)
qed

section \<open>Truncating decimals\<close>

lemma decimal_at_Nil: "decimal_at [] = None"
  by (simp add: decimal_at_def)

lemma decimal_at_other: "\<not> is_digit c \<Longrightarrow> decimal_at (c # cs) = None"
  by (simp add: decimal_at_def)

lemma truncate_decimals_Nil: "truncate_decimals [] = []"
  by (simp add: truncate_decimals_miss decimal_at_Nil)

lemma truncate_decimals_other:
  "\<not> is_digit c \<Longrightarrow> truncate_decimals (c # cs) = c # truncate_decimals cs"
  by (simp add: truncate_decimals_miss decimal_at_other)

lemma truncate_decimals_skip:
  "\<forall>c\<in>set a. \<not> is_digit c \<Longrightarrow> truncate_decimals (a @ b) = a @ truncate_decimals b"
  by (induction a) (simp_all add: truncate_decimals_other)

lemma truncate_decimals_plain:
  "\<forall>c\<in>set a. \<not> is_digit c \<Longrightarrow> truncate_decimals a = a"
  using truncate_decimals_skip [of a "[]"] by (simp add: truncate_decimals_Nil)

lemma fill_reserved_append: "fill_reserved (a @ b) = fill_reserved a @ fill_reserved b"
  by (simp add: fill_reserved_def)

lemma sanitize_url_fake:
  "sanitize_url (''/fakeogcapi'' @ rest) = ''request'' @ sanitize_url rest"
proof -
  have "fill_reserved (''/fakeogcapi'' @ rest) = ''_fakeogcapi'' @ fill_reserved rest"
    by (simp add: fill_reserved_def reserved_chars_def)
  moreover have "truncate_decimals (''_fakeogcapi'' @ fill_reserved rest)
      = ''_fakeogcapi'' @ truncate_decimals (fill_reserved rest)"
    by (rule truncate_decimals_skip) (simp add: is_digit_def)
  ultimately show ?thesis
    by (simp only: sanitize_url_closed marker_hit)
qed

lemma sanitize_url_request:
  "sanitize_url (''request'' @ rest) = ''request'' @ sanitize_url rest"
proof -
  have "fill_reserved (''request'' @ rest) = ''request'' @ fill_reserved rest"
    by (simp add: fill_reserved_def reserved_chars_def)
  moreover have "truncate_decimals (''request'' @ fill_reserved rest)
      = ''request'' @ truncate_decimals (fill_reserved rest)"
    by (rule truncate_decimals_skip) (simp add: is_digit_def)
  moreover have "replace_str ''_fakeogcapi'' ''request''
        (''request'' @ truncate_decimals (fill_reserved rest))
      = ''request'' @ replace_str ''_fakeogcapi'' ''request'' (truncate_decimals (fill_reserved rest))"
    by (rule marker_skip) simp
  ultimately show ?thesis
    by (simp only: sanitize_url_closed)
qed

lemma sanitize_collections: "sanitize_url ''/collections'' = ''_collections''"
proof -
  have "fill_reserved ''/collections'' = ''_collections''"
    by (simp add: fill_reserved_def reserved_chars_def)
  moreover have "truncate_decimals ''_collections'' = ''_collections''"
    by (rule truncate_decimals_plain) (simp add: is_digit_def)
  moreover have "replace_str ''_fakeogcapi'' ''request'' ''_collections'' = ''_collections''"
    by (simp add: marker_miss marker_other marker_Nil)
  ultimately show ?thesis
    by (simp only: sanitize_url_closed)
qed

lemma key_collections: "sanitize_url ''/fakeogcapi/collections'' = ''request_collections''"
  using sanitize_url_fake [of "''/collections''"] by (simp add: sanitize_collections)

section \<open>The handler, branch by branch\<close>


lemma do_GET_replay_hit:
  assumes "\<not> RECORD cfg" and "sublist ''/fakeogcapi'' (path self)"
    and "fs (request_data_path cfg self) = Some (Data d)"
  shows "do_GET cfg net self fs
           = \<lparr>reply = Wrote (rewrite_ports (replay_uri self) d), store = fs, fetched = []\<rparr>"
  using assms
  by (simp add: do_GET_def do_GET_try_def Let_def open_update_def find_str_sublist re_sub_port)

lemma do_GET_replay_miss:
  assumes "\<not> RECORD cfg"
    and "\<not> sublist ''/fakeogcapi'' (path self)
         \<or> (fs (request_data_path cfg self) = None \<and> NUL \<notin> set (request_data_path cfg self))
         \<or> fs (request_data_path cfg self) = Some Faulty
         \<or> fs (request_data_path cfg self) = Some Rejected
         \<or> fs (request_data_path cfg self) = Some (ReadOnly d)"
  shows "do_GET cfg net self fs = \<lparr>reply = not_found self, store = fs, fetched = []\<rparr>"
  using assms
  by (auto simp: do_GET_def do_GET_try_def Let_def open_update_def no_file_def find_str_sublist)

lemma do_GET_replay_nul:
  assumes "\<not> RECORD cfg" and "sublist ''/fakeogcapi'' (path self)"
    and "fs (request_data_path cfg self) = None" and "NUL \<in> set (request_data_path cfg self)"
  shows "do_GET cfg net self fs = \<lparr>reply = Raised ValueError, store = fs, fetched = []\<rparr>"
  using assms
  by (simp add: do_GET_def do_GET_try_def Let_def open_update_def no_file_def find_str_sublist)



lemma do_GET_record_fail:
  assumes "RECORD cfg" and "sublist ''/fakeogcapi'' (path self)"
    and "\<not> (RECORD_NEW_ONLY cfg \<and> fs (request_data_path cfg self) \<noteq> None)"
    and "fs (request_data_path cfg self) = None
         \<or> (\<exists>d. fs (request_data_path cfg self) = Some (Data d))"
    and "NUL \<notin> set (request_data_path cfg self)"
    and "net (upstream_url self) = Inl e"
  shows "do_GET cfg net self fs
           = \<lparr>reply = (if is_IOError e then not_found self else Raised e),
              store = fs(request_data_path cfg self \<mapsto> Data []),
              fetched = [upstream_url self]\<rparr>"
  using assms
  by (auto simp: do_GET_def do_GET_try_def Let_def open_truncate_def os_path_exists_def is_fake_iff)

lemma do_GET_replay_store:
  "\<not> RECORD cfg \<Longrightarrow> store (do_GET cfg net self fs) = fs \<and> fetched (do_GET cfg net self fs) = []"
  by (auto simp: do_GET_def do_GET_try_def Let_def split: sum.splits)

lemma do_GET_frame:
  "p \<noteq> request_data_path cfg self \<Longrightarrow> store (do_GET cfg net self fs) p = fs p"
  by (auto simp: do_GET_def do_GET_try_def Let_def open_truncate_def
           split: sum.splits option.splits entry.splits if_splits)

section \<open>Facts about the example runs\<close>

lemma fake_collections: "sublist ''/fakeogcapi'' (path req_collections)"
  by (simp add: req_collections_def sublist_Cons_right)

lemma fake_elsewhere: "sublist ''/fakeogcapi'' (path req_elsewhere)"
  by (simp add: req_elsewhere_def sublist_Cons_right)

lemma fake_missing: "sublist ''/fakeogcapi'' (path req_missing)"
  by (simp add: req_missing_def sublist_Cons_right)


lemma fake_nul: "sublist ''/fakeogcapi'' (path req_nul)"
  by (simp add: req_nul_def sublist_Cons_right)

lemma path_collections:
  "path self = ''/fakeogcapi/collections'' \<Longrightarrow> BASE_TEST_DATA_PATH cfg = ''data/ogcapi'' \<Longrightarrow>
     request_data_path cfg self = collections_key"
  by (simp add: request_data_path_def key_collections os_path_join_def collections_key_def)

lemma sanitize_lakes: "sanitize_url ''/lakes'' = ''_lakes''"
proof -
  have "fill_reserved ''/lakes'' = ''_lakes''"
    by (simp add: fill_reserved_def reserved_chars_def)
  moreover have "truncate_decimals ''_lakes'' = ''_lakes''"
    by (rule truncate_decimals_plain) (simp add: is_digit_def)
  moreover have "replace_str ''_fakeogcapi'' ''request'' ''_lakes'' = ''_lakes''"
    by (simp add: marker_miss marker_other marker_Nil)
  ultimately show ?thesis
    by (simp only: sanitize_url_closed)
qed

lemma key_lakes: "sanitize_url ''/fakeogcapi/lakes'' = ''request_lakes''"
  using sanitize_url_fake [of "''/lakes''"] by (simp add: sanitize_lakes)

lemma path_lakes: "request_data_path cfg_record req_lakes = lakes_key"
  by (simp add: request_data_path_def req_lakes_def cfg_record_def key_lakes os_path_join_def
        lakes_key_def)

lemma path_nul:
  "request_data_path cfg_replay req_nul = ''data/ogcapi/request_'' @ [NUL] @ ''.http_data''"
proof -
  have "sanitize_url (''/fakeogcapi'' @ ''/'' @ [NUL]) = ''request'' @ sanitize_url (''/'' @ [NUL])"
    by (rule sanitize_url_fake)
  moreover have "sanitize_url (''/'' @ [NUL]) = ''_'' @ [NUL]"
  proof -
    have "fill_reserved (''/'' @ [NUL]) = ''_'' @ [NUL]"
      by (simp add: fill_reserved_def reserved_chars_def NUL_def)
    moreover have "truncate_decimals (''_'' @ [NUL]) = ''_'' @ [NUL]"
      by (rule truncate_decimals_plain) (simp add: is_digit_def NUL_def)
    moreover have "replace_str ''_fakeogcapi'' ''request'' (''_'' @ [NUL]) = ''_'' @ [NUL]"
      by (simp add: marker_miss marker_other marker_Nil NUL_def)
    ultimately show ?thesis
      by (simp only: sanitize_url_closed)
  qed
  ultimately show ?thesis
    by (simp add: request_data_path_def req_nul_def cfg_replay_def os_path_join_def)
qed

lemma store_one_collections: "store_one collections_key = Some (Data old_record)"
  by (simp add: store_one_def)

lemma store_two_collections: "store_two collections_key = Some (Data good_record)"
  by (simp add: store_two_def)

lemma store_wild_collections: "store_wild collections_key = Some (Data wild_record)"
  by (simp add: store_wild_def)

lemma path_missing:
  "BASE_TEST_DATA_PATH cfg = ''data/ogcapi'' \<Longrightarrow>
     request_data_path cfg req_missing = ''data/ogcapi/request_missing.http_data''"
proof -
  have "fill_reserved ''/missing'' = ''_missing''"
    by (simp add: fill_reserved_def reserved_chars_def)
  moreover have "truncate_decimals ''_missing'' = ''_missing''"
    by (rule truncate_decimals_plain) (simp add: is_digit_def)
  moreover have "replace_str ''_fakeogcapi'' ''request'' ''_missing'' = ''_missing''"
    by (simp add: marker_miss marker_other marker_Nil)
  ultimately have "sanitize_url ''/missing'' = ''_missing''"
    by (simp only: sanitize_url_closed)
  then have "sanitize_url ''/fakeogcapi/missing'' = ''request_missing''"
    using sanitize_url_fake [of "''/missing''"] by simp
  then show ?thesis
    if "BASE_TEST_DATA_PATH cfg = ''data/ogcapi''"
    using that by (simp add: request_data_path_def req_missing_def os_path_join_def)
qed

lemma store_one_missing: "store_one ''data/ogcapi/request_missing.http_data'' = None"
  by (simp add: store_one_def collections_key_def)

lemma store_locked_collections: "store_locked collections_key = Some (ReadOnly good_record)"
  by (simp add: store_locked_def)

lemma nul_in_path_nul: "NUL \<in> set (request_data_path cfg_replay req_nul)"
  by (simp add: path_nul)

lemma nul_free_collections: "NUL \<notin> set collections_key"
  by (simp add: collections_key_def NUL_def)

lemma nul_free_lakes: "NUL \<notin> set lakes_key"
  by (simp add: lakes_key_def NUL_def)

lemma nul_free_missing: "NUL \<notin> set ''data/ogcapi/request_missing.http_data''"
  by (simp add: NUL_def)

lemma replay_example:
  "do_GET cfg_replay net_down req_collections store_one
     = \<lparr>reply = Wrote (''HTTP/1.1 200 OK'' @ CRLF @ CRLF
                        @ ''see http://127.0.0.1:80811/fakeogcapi/x''),
        store = store_one, fetched = []\<rparr>"
proof -
  have p: "request_data_path cfg_replay req_collections = collections_key"
    by (rule path_collections) (simp_all add: cfg_replay_def req_collections_def)
  have "\<not> RECORD cfg_replay"
    by (simp add: cfg_replay_def)
  then show ?thesis
    using do_GET_replay_hit [where cfg = cfg_replay and self = req_collections
        and fs = store_one and d = old_record and net = net_down]
    by (simp add: fake_collections p store_one_collections replay_uri_collections
          rewrite_old_record)
qed

lemma rewrite_ports_skip:
  "CHR ''h'' \<notin> set a \<Longrightarrow> rewrite_ports uri (a @ s) = a @ rewrite_ports uri s"
proof (induction a)
  case Nil
  then show ?case by simp
next
  case (Cons x a)
  then have "x \<noteq> CHR ''h''"
    by auto
  with Cons show ?case
    by (simp add: rewrite_ports_other)
qed

lemma rewrite_ports_literal:
  assumes "CHR ''h'' \<notin> set a" and "length p = 4" and "list_all is_digit p"
  shows "rewrite_ports uri (a @ ''http://127.0.0.1:'' @ p @ b) = a @ uri @ rewrite_ports uri b"
proof -
  from assms(2) obtain d1 d2 d3 d4 where p: "p = [d1, d2, d3, d4]"
    by (auto simp: numeral_eq_Suc length_Suc_conv)
  have "port_url_at (''http://127.0.0.1:'' @ d1 # d2 # d3 # d4 # b)"
    using assms(3) p by (simp only: port_url_at_literal) simp
  then have "rewrite_ports uri (''http://127.0.0.1:'' @ d1 # d2 # d3 # d4 # b)
      = uri @ rewrite_ports uri (drop 21 (''http://127.0.0.1:'' @ d1 # d2 # d3 # d4 # b))"
    by (rule rewrite_ports_hit)
  then have "rewrite_ports uri (''http://127.0.0.1:'' @ p @ b) = uri @ rewrite_ports uri b"
    by (simp add: p)
  with assms(1) show ?thesis
    by (simp add: rewrite_ports_skip)
qed

lemma rewrite_good_record:
  "rewrite_ports ''http://127.0.0.1:8081'' good_record
     = ''HTTP/1.1 200 OK'' @ CRLF @ CRLF @ ''see http://127.0.0.1:8081/fakeogcapi/x''"
proof -
  have "rewrite_ports ''http://127.0.0.1:8081''
          ((''HTTP/1.1 200 OK'' @ CRLF @ CRLF @ ''see '') @ ''http://127.0.0.1:'' @ ''8080''
            @ ''/fakeogcapi/x'')
      = (''HTTP/1.1 200 OK'' @ CRLF @ CRLF @ ''see '') @ ''http://127.0.0.1:8081''
          @ rewrite_ports ''http://127.0.0.1:8081'' ''/fakeogcapi/x''"
    by (rule rewrite_ports_literal) (simp_all add: CRLF_def is_digit_def)
  then show ?thesis
    by (simp add: good_record_def rewrite_ports_other rewrite_ports_Nil)
qed

lemma str_nat_200: "str_nat 200 = ''200''"
  by (simp add: str_nat.simps digit_char_def)

lemma str_nat_50: "str_nat 50 = ''50''"
  by (simp add: str_nat.simps digit_char_def)

lemma local_uri_collections: "local_uri req_collections = ''http://127.0.0.1:8081/fakeogcapi''"
  by (simp add: local_uri_def req_collections_def str_nat_8081 encode_utf8_def encode_utf8_char_def)

lemma rewritten_content_example:
  "rewritten_content req_collections upstream_response
     = ''see http://127.0.0.1:8081/fakeogcapi/collections/x''"
proof -
  have 1: "replace_str ''https://maps.gnosis.earth/ogcapi'' ''http://127.0.0.1:8081/fakeogcapi''
             ''see /ogcapi/collections/x'' = ''see /ogcapi/collections/x''"
    by (simp add: replace_str_other replace_str_Nil)
  have 2: "replace_str ''/ogcapi'' ''http://127.0.0.1:8081/fakeogcapi'' ''see /ogcapi/collections/x''
             = ''see http://127.0.0.1:8081/fakeogcapi/collections/x''"
    by (simp add: replace_str_hit replace_str_miss replace_str_Nil)
  show ?thesis
    by (simp add: rewritten_content_def Let_def local_uri_collections upstream_response_def
          TEST_DATA_SOURCE_ENDPOINT_def ENDPOINT_PATH_def encode_utf8_def encode_utf8_char_def 1 2)
qed

lemma record_data_example:
  "record_data req_collections upstream_response
     = ''HTTP/1.1 200 OK'' @ CRLF @ ''Content-Length: 50'' @ CRLF @ CRLF
       @ ''see http://127.0.0.1:8081/fakeogcapi/collections/x''"
proof -
  have len: "length ''see http://127.0.0.1:8081/fakeogcapi/collections/x'' = 50"
    by simp
  show ?thesis
    unfolding record_data_def Let_def rewritten_content_example add_header_def len
    by (simp add: status_line_def upstream_response_def str_nat_200 str_nat_50
          encode_utf8_def encode_utf8_char_def)
qed

lemma upstream_url_collections:
  "upstream_url req_collections = ''https://maps.gnosis.earth/ogcapi/collections''"
proof -
  have "replace_str ''/fakeogcapi'' [] ''/fakeogcapi/collections'' = ''/collections''"
    by (simp add: replace_str_hit replace_str_miss replace_str_other replace_str_Nil)
  then show ?thesis
    by (simp add: upstream_url_def req_collections_def TEST_DATA_SOURCE_ENDPOINT_def)
qed

lemma list_of_length_17:
  assumes "length xs = 17"
  shows "\<exists>c0 c1 c2 c3 c4 c5 c6 c7 c8 c9 c10 c11 c12 c13 c14 c15 c16.
           xs = [c0, c1, c2, c3, c4, c5, c6, c7, c8, c9, c10, c11, c12, c13, c14, c15, c16]"
  using assms by (auto simp: numeral_eq_Suc length_Suc_conv)

lemma port_url_at_grammar:
  "port_url_at s \<longleftrightarrow>
     (\<exists>x y z p rest.
        s = ''http://127'' @ [x] @ ''0'' @ [y] @ ''0'' @ [z] @ ''1:'' @ p @ rest
        \<and> x \<noteq> CHR 0x0A \<and> y \<noteq> CHR 0x0A \<and> z \<noteq> CHR 0x0A
        \<and> length p = 4 \<and> (\<forall>c\<in>set p. c \<in> set ''0123456789''))"
proof
  assume a: "port_url_at s"
  then have "21 \<le> length s"
    by (simp add: port_url_at_def)
  then have "length (take 17 s) = 17"
    by simp
  then obtain c0 c1 c2 c3 c4 c5 c6 c7 c8 c9 c10 c11 c12 c13 c14 c15 c16
    where t: "take 17 s = [c0, c1, c2, c3, c4, c5, c6, c7, c8, c9, c10, c11, c12, c13, c14, c15, c16]"
    using list_of_length_17 [of "take 17 s"] by blast
  define p where "p = take 4 (drop 17 s)"
  have p: "take 4 (drop 17 s) = p" "length p = 4"
    using \<open>21 \<le> length s\<close> by (simp_all add: p_def)
  have "s = take 17 s @ take 4 (drop 17 s) @ drop 4 (drop 17 s)"
    by (simp only: append_take_drop_id)
  then have s: "s = [c0, c1, c2, c3, c4, c5, c6, c7, c8, c9, c10, c11, c12, c13, c14, c15, c16]
                  @ p @ drop 21 s"
    by (simp only: t p) simp
  define rest where "rest = drop 21 s"
  have s': "s = [c0, c1, c2, c3, c4, c5, c6, c7, c8, c9, c10, c11, c12, c13, c14, c15, c16]
                  @ p @ rest"
    using s by (simp add: rest_def)
  have "port_url_at ([c0, c1, c2, c3, c4, c5, c6, c7, c8, c9, c10, c11, c12, c13, c14, c15, c16]
                  @ p @ rest)"
    using a s' by simp
  then have "[c0, c1, c2, c3, c4, c5, c6, c7, c8, c9] = ''http://127''
      \<and> c10 \<noteq> CHR 0x0A \<and> c11 = CHR ''0'' \<and> c12 \<noteq> CHR 0x0A \<and> c13 = CHR ''0''
      \<and> c14 \<noteq> CHR 0x0A \<and> c15 = CHR ''1'' \<and> c16 = CHR '':'' \<and> list_all is_digit p"
    using p(2) by (simp add: port_url_at_def newline_def)
  then have "s = ''http://127'' @ [c10] @ ''0'' @ [c12] @ ''0'' @ [c14] @ ''1:'' @ p @ rest
      \<and> c10 \<noteq> CHR 0x0A \<and> c12 \<noteq> CHR 0x0A \<and> c14 \<noteq> CHR 0x0A
      \<and> length p = 4 \<and> (\<forall>c\<in>set p. c \<in> set ''0123456789'')"
    using s' p(2) by (simp add: list_all_iff is_digit_def)
  then show "\<exists>x y z p rest.
        s = ''http://127'' @ [x] @ ''0'' @ [y] @ ''0'' @ [z] @ ''1:'' @ p @ rest
        \<and> x \<noteq> CHR 0x0A \<and> y \<noteq> CHR 0x0A \<and> z \<noteq> CHR 0x0A
        \<and> length p = 4 \<and> (\<forall>c\<in>set p. c \<in> set ''0123456789'')"
    by blast
next
  assume "\<exists>x y z p rest.
        s = ''http://127'' @ [x] @ ''0'' @ [y] @ ''0'' @ [z] @ ''1:'' @ p @ rest
        \<and> x \<noteq> CHR 0x0A \<and> y \<noteq> CHR 0x0A \<and> z \<noteq> CHR 0x0A
        \<and> length p = 4 \<and> (\<forall>c\<in>set p. c \<in> set ''0123456789'')"
  then obtain x y z p rest
    where s: "s = ''http://127'' @ [x] @ ''0'' @ [y] @ ''0'' @ [z] @ ''1:'' @ p @ rest"
      and c: "x \<noteq> CHR 0x0A" "y \<noteq> CHR 0x0A" "z \<noteq> CHR 0x0A"
      and p: "length p = 4" "\<forall>c\<in>set p. c \<in> set ''0123456789''"
    by blast
  from p(1) obtain d1 d2 d3 d4 where q: "p = [d1, d2, d3, d4]"
    by (auto simp: numeral_eq_Suc length_Suc_conv)
  from p(2) have "is_digit d1" "is_digit d2" "is_digit d3" "is_digit d4"
    unfolding q is_digit_def by simp_all
  with c show "port_url_at s"
    unfolding s q by (simp add: port_url_at_def newline_def)
qed

lemma digit_char_digit: "d < 10 \<Longrightarrow> digit_char d \<in> set ''0123456789''"
  unfolding digit_char_def by (rule nth_mem) simp

lemma digit_ascii: "c \<in> set ''0123456789'' \<Longrightarrow> of_char c < (128::nat)"
  by auto

lemma str_nat_ascii: "\<forall>c\<in>set (str_nat n). of_char c < (128::nat)"
proof (induction n rule: str_nat.induct)
  case (1 n)
  show ?case
  proof (cases "n < 10")
    case True
    then show ?thesis
      using digit_ascii [OF digit_char_digit [of n]] by (simp add: str_nat.simps [of n])
  next
    case False
    have "n mod 10 < 10"
      by simp
    then have "of_char (digit_char (n mod 10)) < (128::nat)"
      by (intro digit_ascii digit_char_digit)
    with False 1 show ?thesis
      by (simp add: str_nat.simps [of n])
  qed
qed

lemma replay_uri_ascii:
  assumes "\<forall>c\<in>set a. of_char c < (128::nat)"
  shows "encode_utf8 (''http://'' @ a @ '':'' @ str_nat n) = ''http://'' @ a @ '':'' @ str_nat n"
  using assms str_nat_ascii [of n] by (intro encode_utf8_ascii) auto

lemma str_nat_54321: "str_nat 54321 = ''54321''"
  by (simp add: str_nat.simps digit_char_def)



lemma rewrite_good_record_any:
  "rewrite_ports uri good_record
     = ''HTTP/1.1 200 OK'' @ CRLF @ CRLF @ ''see '' @ uri @ ''/fakeogcapi/x''"
proof -
  have "rewrite_ports uri
          ((''HTTP/1.1 200 OK'' @ CRLF @ CRLF @ ''see '') @ ''http://127.0.0.1:'' @ ''8080''
            @ ''/fakeogcapi/x'')
      = (''HTTP/1.1 200 OK'' @ CRLF @ CRLF @ ''see '') @ uri
          @ rewrite_ports uri ''/fakeogcapi/x''"
    by (rule rewrite_ports_literal) (simp_all add: CRLF_def is_digit_def)
  then show ?thesis
    by (simp add: good_record_def rewrite_ports_other rewrite_ports_Nil)
qed

lemma rewrite_wild_record:
  "rewrite_ports uri wild_record = ''HTTP/1.1 200 OK'' @ CRLF @ CRLF @ ''see '' @ uri @ ''/x''"
proof -
  have hit: "rewrite_ports uri ''http://127x0y0z1:1234/x'' = uri @ rewrite_ports uri ''/x''"
    by (subst rewrite_ports_hit) (simp_all add: port_url_at_def newline_def is_digit_def)
  have "rewrite_ports uri ((''HTTP/1.1 200 OK'' @ CRLF @ CRLF @ ''see '') @ ''http://127x0y0z1:1234/x'')
      = (''HTTP/1.1 200 OK'' @ CRLF @ CRLF @ ''see '') @ rewrite_ports uri ''http://127x0y0z1:1234/x''"
    by (rule rewrite_ports_skip) (simp add: CRLF_def)
  then show ?thesis
    by (simp add: wild_record_def hit rewrite_ports_other rewrite_ports_Nil)
qed

lemma rewrite_old_record_any:
  "rewrite_ports uri old_record
     = ''HTTP/1.1 200 OK'' @ CRLF @ CRLF @ ''see '' @ uri @ ''1/fakeogcapi/x''"
proof -
  have hit: "rewrite_ports uri ''http://127.0.0.1:54321/fakeogcapi/x''
      = uri @ rewrite_ports uri ''1/fakeogcapi/x''"
    by (subst rewrite_ports_hit) (simp_all add: port_url_at_def newline_def is_digit_def)
  have "rewrite_ports uri ((''HTTP/1.1 200 OK'' @ CRLF @ CRLF @ ''see '')
          @ ''http://127.0.0.1:54321/fakeogcapi/x'')
      = (''HTTP/1.1 200 OK'' @ CRLF @ CRLF @ ''see '')
          @ rewrite_ports uri ''http://127.0.0.1:54321/fakeogcapi/x''"
    by (rule rewrite_ports_skip) (simp add: CRLF_def)
  then show ?thesis
    by (simp add: old_record_def hit rewrite_ports_other rewrite_ports_Nil)
qed







lemma char_of_195: "char_of (195::nat) = CHR 0xC3"
  by code_simp

lemma char_of_169: "char_of (169::nat) = CHR 0xA9"
  by code_simp

lemma encode_e_acute: "encode_utf8_char (CHR 0xE9) = [CHR 0xC3, CHR 0xA9]"
  by (simp add: encode_utf8_char_def char_of_195 char_of_169)

lemma cfg_replay_simps:
  "\<not> RECORD cfg_replay" "BASE_TEST_DATA_PATH cfg_replay = ''data/ogcapi''"
  by (simp_all add: cfg_replay_def)

lemma cfg_record_simps:
  "RECORD cfg_record" "\<not> RECORD_NEW_ONLY cfg_record"
  "BASE_TEST_DATA_PATH cfg_record = ''data/ogcapi''"
  by (simp_all add: cfg_record_def)


lemma path_req_collections:
  "BASE_TEST_DATA_PATH cfg = ''data/ogcapi'' \<Longrightarrow>
     request_data_path cfg req_collections = collections_key"
  by (rule path_collections) (simp_all add: req_collections_def)

lemma path_req_elsewhere:
  "BASE_TEST_DATA_PATH cfg = ''data/ogcapi'' \<Longrightarrow>
     request_data_path cfg req_elsewhere = collections_key"
  by (rule path_collections) (simp_all add: req_elsewhere_def)

lemma replay_uri_elsewhere: "replay_uri req_elsewhere = ''http://10.0.0.7:54321''"
  by (simp add: replay_uri_def req_elsewhere_def str_nat_54321 encode_utf8_def
        encode_utf8_char_def)

lemma replay_collections_run:
  assumes "fs collections_key = Some (Data d)"
  shows "do_GET cfg_replay net req_collections fs
           = \<lparr>reply = Wrote (rewrite_ports ''http://127.0.0.1:8081'' d), store = fs,
              fetched = []\<rparr>"
  using do_GET_replay_hit [where cfg = cfg_replay and self = req_collections and fs = fs
      and d = d and net = net] assms
  by (simp add: cfg_replay_simps fake_collections path_req_collections replay_uri_collections)

lemma replay_elsewhere_run:
  assumes "fs collections_key = Some (Data d)"
  shows "do_GET cfg_replay net req_elsewhere fs
           = \<lparr>reply = Wrote (rewrite_ports ''http://10.0.0.7:54321'' d), store = fs,
              fetched = []\<rparr>"
  using do_GET_replay_hit [where cfg = cfg_replay and self = req_elsewhere and fs = fs
      and d = d and net = net] assms
  by (simp add: cfg_replay_simps fake_elsewhere path_req_elsewhere replay_uri_elsewhere)

lemma failed_example:
  "do_GET cfg_record net_down req_collections store_one
     = \<lparr>reply = not_found req_collections, store = store_one(collections_key \<mapsto> Data []),
        fetched = [''https://maps.gnosis.earth/ogcapi/collections'']\<rparr>"
proof -
  have p: "request_data_path cfg_record req_collections = collections_key"
    by (rule path_req_collections) (rule cfg_record_simps)
  have "net_down (upstream_url req_collections) = Inl RequestException"
    by (simp add: net_down_def)
  then show ?thesis
    using do_GET_record_fail [where cfg = cfg_record and self = req_collections
        and fs = store_one and net = net_down and e = RequestException]
    by (simp add: cfg_record_simps fake_collections p store_one_collections
          upstream_url_collections nul_free_collections)
qed

section \<open>Recording: a failed fetch\<close>

text \<open>
  Claim C1, as the code has it. In recording mode, when the record is not skipped and
  the fixture file can be opened with \<^verbatim>\<open>"wb+"\<close> (its name has no NUL byte, and there is
  no file of that name or one that can be written), the file is opened, and so emptied,
  before the fetch. If \<^verbatim>\<open>requests.get\<close> then raises, nothing that was fetched reaches the
  store or the client: every other entry of the store is as before and the entry of the
  request's key is an empty file. An exception that is not an \<^verbatim>\<open>IOError\<close> leaves
  \<^verbatim>\<open>do_GET\<close>; an \<^verbatim>\<open>IOError\<close>, which the transport errors of \<^verbatim>\<open>requests\<close> are, is
  caught and answered with the 404.
\<close>

theorem record_failed_fetch:
  assumes "sublist ''/fakeogcapi'' (path self)" and "RECORD cfg"
    and "\<not> (RECORD_NEW_ONLY cfg \<and> fs (request_data_path cfg self) \<noteq> None)"
    and "fs (request_data_path cfg self) = None
         \<or> (\<exists>d. fs (request_data_path cfg self) = Some (Data d))"
    and "CHR 0x00 \<notin> set (request_data_path cfg self)"
    and "net (upstream_url self) = Inl e"
  shows "store (do_GET cfg net self fs) = fs(request_data_path cfg self \<mapsto> Data [])
       \<and> fetched (do_GET cfg net self fs) = [upstream_url self]
       \<and> reply (do_GET cfg net self fs) = (if is_IOError e then not_found self else Raised e)"
proof -
  have "NUL \<notin> set (request_data_path cfg self)"
    using assms(5) by (simp add: NUL_def)
  with assms(1-4,6) show ?thesis
    by (simp add: do_GET_record_fail)
qed

text \<open>
  Claim C1, an instance: the upstream is down while \<^verbatim>\<open>/fakeogcapi/collections\<close> is
  recorded over an existing record.
\<close>

theorem record_failed_fetch_witness:
  "store (do_GET cfg_record net_down req_collections store_one)
     = store_one(collections_key \<mapsto> Data [])
   \<and> fetched (do_GET cfg_record net_down req_collections store_one)
     = [''https://maps.gnosis.earth/ogcapi/collections'']
   \<and> reply (do_GET cfg_record net_down req_collections store_one) = not_found req_collections"
proof -
  have p: "request_data_path cfg_record req_collections = collections_key"
    by (rule path_req_collections) (rule cfg_record_simps)
  have 1: "sublist ''/fakeogcapi'' (path req_collections)"
    by (rule fake_collections)
  have 2: "RECORD cfg_record"
    by (rule cfg_record_simps)
  have 3: "\<not> (RECORD_NEW_ONLY cfg_record
             \<and> store_one (request_data_path cfg_record req_collections) \<noteq> None)"
    by (simp add: cfg_record_simps)
  have 4: "store_one (request_data_path cfg_record req_collections) = None
         \<or> (\<exists>d. store_one (request_data_path cfg_record req_collections) = Some (Data d))"
    by (simp add: p store_one_collections)
  have 5: "CHR 0x00 \<notin> set (request_data_path cfg_record req_collections)"
    by (simp add: p collections_key_def)
  have 6: "net_down (upstream_url req_collections) = Inl RequestException"
    by (simp add: net_down_def)
  show ?thesis
    using record_failed_fetch [where self = req_collections and cfg = cfg_record
        and fs = store_one and net = net_down and e = RequestException, OF 1 2 3 4 5 6]
    by (simp add: p upstream_url_collections)
qed

text \<open>
  Claim C1 as the specification states it fails: after the failed fetch the record that
  was stored under the key is gone, and the handler has not raised.
\<close>

theorem record_failed_fetch_counterexample:
  "store_one collections_key = Some (Data old_record)
   \<and> store (do_GET cfg_record net_down req_collections store_one) collections_key
       = Some (Data [])
   \<and> reply (do_GET cfg_record net_down req_collections store_one) \<noteq> Raised RequestException"
  by (simp add: failed_example store_one_collections not_found_def)

section \<open>Replay: rewriting the port\<close>

text \<open>
  Claim C2, as the code has it. In replay mode a synthetic GET whose fixture file exists
  and can be opened for update is answered with the fixture bytes, rewritten by a scan
  from the left: where a port URL starts, the replacement is put and the scan goes on
  behind the 21 bytes of the port URL; every other byte is put as it is stored. The
  replacement is \<^verbatim>\<open>http://\<close>, the address string of the handler (the address of the
  requesting peer), \<^verbatim>\<open>:\<close> and the port of the server in decimal, encoded as UTF-8,
  which leaves ASCII as it is. A port URL is \<^verbatim>\<open>http://127\<close>, any byte but a newline,
  \<^verbatim>\<open>0\<close>, any byte but a newline, \<^verbatim>\<open>0\<close>, any byte but a newline, \<^verbatim>\<open>1:\<close> and four
  digits; whatever follows the four digits, a fifth digit too, is left to the scan.
\<close>

theorem replay_rewrites_ports:
  assumes "\<not> RECORD cfg" and "sublist ''/fakeogcapi'' (path self)"
    and "fs (request_data_path cfg self) = Some (Data d)"
    and "uri = encode_utf8 (''http://'' @ address_string self @ '':''
                             @ str_nat (server_port self))"
  shows "reply (do_GET cfg net self fs) = Wrote (rewrite_ports uri d)
       \<and> ((\<forall>c\<in>set (address_string self). of_char c < (128::nat))
            \<longrightarrow> uri = ''http://'' @ address_string self @ '':'' @ str_nat (server_port self))
       \<and> str_nat n = (if n < 10 then [''0123456789'' ! n]
                      else str_nat (n div 10) @ [''0123456789'' ! (n mod 10)])
       \<and> rewrite_ports uri [] = []
       \<and> (port_url_at s \<longrightarrow> rewrite_ports uri s = uri @ rewrite_ports uri (drop 21 s))
       \<and> (\<not> port_url_at (c # cs) \<longrightarrow> rewrite_ports uri (c # cs) = c # rewrite_ports uri cs)
       \<and> (port_url_at s \<longleftrightarrow>
            (\<exists>x y z p rest.
               s = ''http://127'' @ [x] @ ''0'' @ [y] @ ''0'' @ [z] @ ''1:'' @ p @ rest
               \<and> x \<noteq> CHR 0x0A \<and> y \<noteq> CHR 0x0A \<and> z \<noteq> CHR 0x0A
               \<and> length p = 4 \<and> (\<forall>c\<in>set p. c \<in> set ''0123456789'')))"
proof -
  have "reply (do_GET cfg net self fs) = Wrote (rewrite_ports uri d)"
    using assms by (simp add: do_GET_replay_hit replay_uri_def)
  moreover have "(\<forall>c\<in>set (address_string self). of_char c < (128::nat))
      \<longrightarrow> uri = ''http://'' @ address_string self @ '':'' @ str_nat (server_port self)"
    unfolding assms(4) using replay_uri_ascii by blast
  moreover have "str_nat n = (if n < 10 then [''0123456789'' ! n]
                      else str_nat (n div 10) @ [''0123456789'' ! (n mod 10)])"
    by (subst str_nat.simps) (simp add: digit_char_def)
  moreover have "rewrite_ports uri [] = []"
    by (rule rewrite_ports_Nil)
  moreover have "port_url_at s \<longrightarrow> rewrite_ports uri s = uri @ rewrite_ports uri (drop 21 s)"
    by (simp add: rewrite_ports_hit)
  moreover have "\<not> port_url_at (c # cs)
      \<longrightarrow> rewrite_ports uri (c # cs) = c # rewrite_ports uri cs"
    by (simp add: rewrite_ports_miss)
  ultimately show ?thesis
    using port_url_at_grammar [of s] by (simp only: simp_thms)
qed

text \<open>
  Claim C2, two instances: a record made on port 8080 is replayed by a server on port
  8081 to a peer on the loopback address, and by a server on port 54321 to a peer at
  10.0.0.7.
\<close>

theorem replay_rewrites_ports_witness:
  "reply (do_GET cfg_replay net_down req_collections store_two)
     = Wrote (''HTTP/1.1 200 OK'' @ CRLF @ CRLF @ ''see http://127.0.0.1:8081/fakeogcapi/x'')
   \<and> reply (do_GET cfg_replay net_down req_elsewhere store_two)
     = Wrote (''HTTP/1.1 200 OK'' @ CRLF @ CRLF @ ''see http://10.0.0.7:54321/fakeogcapi/x'')"
proof -
  have 1: "\<not> RECORD cfg_replay"
    by (rule cfg_replay_simps)
  have 2: "sublist ''/fakeogcapi'' (path req_collections)"
    by (rule fake_collections)
  have 3: "store_two (request_data_path cfg_replay req_collections) = Some (Data good_record)"
    by (simp add: path_req_collections cfg_replay_simps store_two_collections)
  have 4: "''http://127.0.0.1:8081''
      = encode_utf8 (''http://'' @ address_string req_collections @ '':''
                      @ str_nat (server_port req_collections))"
    by (rule replay_uri_collections [unfolded replay_uri_def, symmetric])
  have 5: "sublist ''/fakeogcapi'' (path req_elsewhere)"
    by (rule fake_elsewhere)
  have 6: "store_two (request_data_path cfg_replay req_elsewhere) = Some (Data good_record)"
    by (simp add: path_req_elsewhere cfg_replay_simps store_two_collections)
  have 7: "''http://10.0.0.7:54321''
      = encode_utf8 (''http://'' @ address_string req_elsewhere @ '':''
                      @ str_nat (server_port req_elsewhere))"
    by (rule replay_uri_elsewhere [unfolded replay_uri_def, symmetric])
  have "reply (do_GET cfg_replay net_down req_collections store_two)
      = Wrote (rewrite_ports ''http://127.0.0.1:8081'' good_record)"
    using replay_rewrites_ports [where cfg = cfg_replay and self = req_collections
        and fs = store_two and d = good_record and net = net_down
        and uri = "''http://127.0.0.1:8081''", OF 1 2 3 4]
    by (rule conjunct1)
  moreover have "reply (do_GET cfg_replay net_down req_elsewhere store_two)
      = Wrote (rewrite_ports ''http://10.0.0.7:54321'' good_record)"
    using replay_rewrites_ports [where cfg = cfg_replay and self = req_elsewhere
        and fs = store_two and d = good_record and net = net_down
        and uri = "''http://10.0.0.7:54321''", OF 1 5 6 7]
    by (rule conjunct1)
  ultimately show ?thesis
    by (simp add: rewrite_good_record_any)
qed

text \<open>
  Claim C2 as the specification states it fails in three ways. Of a recorded port of
  five digits, 54321, the last digit stays behind the new URL. Bytes that are no URL of
  the loopback address, \<^verbatim>\<open>http://127x0y0z1:1234\<close>, are rewritten. And the address in
  the new URL is the one of the requesting peer, 10.0.0.7, where the server is bound
  to 0.0.0.0.
\<close>

theorem replay_rewrites_ports_counterexample:
  "store_one collections_key
     = Some (Data (''HTTP/1.1 200 OK'' @ CRLF @ CRLF @ ''see http://127.0.0.1:54321/fakeogcapi/x''))
   \<and> reply (do_GET cfg_replay net_down req_collections store_one)
     = Wrote (''HTTP/1.1 200 OK'' @ CRLF @ CRLF @ ''see http://127.0.0.1:80811/fakeogcapi/x'')
   \<and> reply (do_GET cfg_replay net_down req_collections store_one)
     \<noteq> Wrote (''HTTP/1.1 200 OK'' @ CRLF @ CRLF @ ''see http://127.0.0.1:8081/fakeogcapi/x'')
   \<and> store_wild collections_key
     = Some (Data (''HTTP/1.1 200 OK'' @ CRLF @ CRLF @ ''see http://127x0y0z1:1234/x''))
   \<and> reply (do_GET cfg_replay net_down req_collections store_wild)
     = Wrote (''HTTP/1.1 200 OK'' @ CRLF @ CRLF @ ''see http://127.0.0.1:8081/x'')
   \<and> reply (do_GET cfg_replay net_down req_collections store_wild)
     \<noteq> Wrote (''HTTP/1.1 200 OK'' @ CRLF @ CRLF @ ''see http://127x0y0z1:1234/x'')
   \<and> server_address req_elsewhere = ''0.0.0.0''
   \<and> address_string req_elsewhere = ''10.0.0.7''
   \<and> server_port req_elsewhere = 54321
   \<and> store_two collections_key
     = Some (Data (''HTTP/1.1 200 OK'' @ CRLF @ CRLF @ ''see http://127.0.0.1:8080/fakeogcapi/x''))
   \<and> reply (do_GET cfg_replay net_down req_elsewhere store_two)
     = Wrote (''HTTP/1.1 200 OK'' @ CRLF @ CRLF @ ''see http://10.0.0.7:54321/fakeogcapi/x'')
   \<and> reply (do_GET cfg_replay net_down req_elsewhere store_two)
     \<noteq> Wrote (''HTTP/1.1 200 OK'' @ CRLF @ CRLF @ ''see http://0.0.0.0:54321/fakeogcapi/x'')"
proof -
  have "do_GET cfg_replay net_down req_collections store_one
      = \<lparr>reply = Wrote (''HTTP/1.1 200 OK'' @ CRLF @ CRLF
                         @ ''see http://127.0.0.1:80811/fakeogcapi/x''),
         store = store_one, fetched = []\<rparr>"
    by (rule replay_example)
  moreover have "do_GET cfg_replay net_down req_collections store_wild
      = \<lparr>reply = Wrote (''HTTP/1.1 200 OK'' @ CRLF @ CRLF @ ''see http://127.0.0.1:8081/x''),
         store = store_wild, fetched = []\<rparr>"
    using replay_collections_run [where fs = store_wild and d = wild_record and net = net_down]
    by (simp add: store_wild_collections rewrite_wild_record)
  moreover have "do_GET cfg_replay net_down req_elsewhere store_two
      = \<lparr>reply = Wrote (''HTTP/1.1 200 OK'' @ CRLF @ CRLF
                         @ ''see http://10.0.0.7:54321/fakeogcapi/x''),
         store = store_two, fetched = []\<rparr>"
    using replay_elsewhere_run [where fs = store_two and d = good_record and net = net_down]
    by (simp add: store_two_collections rewrite_good_record_any)
  ultimately show ?thesis
    by (simp add: store_one_collections store_two_collections store_wild_collections
          old_record_def good_record_def wild_record_def req_elsewhere_def)
qed

section \<open>Replay: the 404\<close>

lemma replay_nul_run:
  "do_GET cfg_replay net req_nul store_none
     = \<lparr>reply = Raised ValueError, store = store_none, fetched = []\<rparr>"
  using do_GET_replay_nul [where cfg = cfg_replay and self = req_nul and fs = store_none
      and net = net]
  by (simp add: cfg_replay_simps fake_nul nul_in_path_nul) (simp add: store_none_def)

text \<open>
  Claim C5, as the code has it. In replay mode a GET is answered with the 404 whose
  message names the path exactly when the path does not hold the marker
  \<^verbatim>\<open>/fakeogcapi\<close>, or there is no fixture file of its key and the name of the file has no
  NUL byte, or opening the file for update or reading it raises an \<^verbatim>\<open>OSError\<close> (a file
  that cannot be written is one such). Where there is no file and the name has a NUL
  byte, \<^verbatim>\<open>open\<close> raises \<^verbatim>\<open>ValueError\<close>, which \<^verbatim>\<open>except IOError\<close> does not catch: the
  exception leaves \<^verbatim>\<open>do_GET\<close> and no answer is sent. In every other case the fixture
  bytes are served, with the port rewritten, and not a 404.
\<close>

theorem replay_not_found_iff:
  assumes "\<not> RECORD cfg"
  shows "(reply (do_GET cfg net self fs)
            = SendError 404 (''File Not Found: '' @ path self)
                ''The requested URL was not found on this server.''
          \<longleftrightarrow> \<not> sublist ''/fakeogcapi'' (path self)
              \<or> (fs (request_data_path cfg self) = None
                  \<and> CHR 0x00 \<notin> set (request_data_path cfg self))
              \<or> fs (request_data_path cfg self) = Some Faulty
              \<or> fs (request_data_path cfg self) = Some Rejected
              \<or> (\<exists>d. fs (request_data_path cfg self) = Some (ReadOnly d)))
       \<and> (reply (do_GET cfg net self fs) = Raised ValueError
          \<longleftrightarrow> sublist ''/fakeogcapi'' (path self)
              \<and> fs (request_data_path cfg self) = None
              \<and> CHR 0x00 \<in> set (request_data_path cfg self))
       \<and> (sublist ''/fakeogcapi'' (path self) \<and> fs (request_data_path cfg self) = Some (Data d)
            \<longrightarrow> reply (do_GET cfg net self fs)
                  = Wrote (re_sub REPLACE_PORT_RE
                             [Txt (encode_utf8 (''http://'' @ address_string self @ '':''
                                                 @ str_nat (server_port self)))] d))"
  using assms
  by (auto simp: do_GET_def do_GET_try_def Let_def open_update_def no_file_def NUL_def
                 not_found_def find_str_sublist replay_uri_def
           split: sum.splits option.splits entry.splits)

text \<open>
  Claim C5, three instances: a path with no fixture gets the 404, a path whose fixture
  cannot be written gets the 404, and a path with a fixture gets the fixture.
\<close>

theorem replay_not_found_iff_witness:
  "reply (do_GET cfg_replay net_down req_missing store_one)
     = SendError 404 ''File Not Found: /fakeogcapi/missing''
         ''The requested URL was not found on this server.''
   \<and> reply (do_GET cfg_replay net_down req_collections store_locked)
     = SendError 404 ''File Not Found: /fakeogcapi/collections''
         ''The requested URL was not found on this server.''
   \<and> reply (do_GET cfg_replay net_down req_collections store_two)
     = Wrote (''HTTP/1.1 200 OK'' @ CRLF @ CRLF @ ''see http://127.0.0.1:8081/fakeogcapi/x'')"
proof -
  have 1: "\<not> RECORD cfg_replay"
    by (rule cfg_replay_simps)
  have pm: "request_data_path cfg_replay req_missing = ''data/ogcapi/request_missing.http_data''"
    by (rule path_missing) (rule cfg_replay_simps)
  have pc: "request_data_path cfg_replay req_collections = collections_key"
    by (rule path_req_collections) (rule cfg_replay_simps)
  have 2: "store_one (request_data_path cfg_replay req_missing) = None
           \<and> CHR 0x00 \<notin> set (request_data_path cfg_replay req_missing)"
    by (simp add: pm store_one_missing)
  have 3: "path req_missing = ''/fakeogcapi/missing''"
    and pq: "path req_collections = ''/fakeogcapi/collections''"
    by (simp_all add: req_missing_def req_collections_def)
  have 4: "sublist ''/fakeogcapi'' (path req_collections)
           \<and> store_two (request_data_path cfg_replay req_collections) = Some (Data good_record)"
    by (simp add: fake_collections pc store_two_def)
  have 5: "re_sub REPLACE_PORT_RE
             [Txt (encode_utf8 (''http://'' @ address_string req_collections @ '':''
                                 @ str_nat (server_port req_collections)))] good_record
           = ''HTTP/1.1 200 OK'' @ CRLF @ CRLF @ ''see http://127.0.0.1:8081/fakeogcapi/x''"
    using replay_uri_collections
    by (simp add: re_sub_port replay_uri_def rewrite_good_record)
  have 6: "\<exists>d. store_locked (request_data_path cfg_replay req_collections) = Some (ReadOnly d)"
    by (simp add: pc store_locked_collections)
  have a: "reply (do_GET cfg_replay net_down req_missing store_one)
      = SendError 404 ''File Not Found: /fakeogcapi/missing''
          ''The requested URL was not found on this server.''"
    using replay_not_found_iff [where cfg = cfg_replay and net = net_down
        and self = req_missing and fs = store_one, OF 1] 2 3
    by simp
  have b: "reply (do_GET cfg_replay net_down req_collections store_locked)
      = SendError 404 ''File Not Found: /fakeogcapi/collections''
          ''The requested URL was not found on this server.''"
    using replay_not_found_iff [where cfg = cfg_replay and net = net_down
        and self = req_collections and fs = store_locked, OF 1] 6 pq
    by simp
  have c: "reply (do_GET cfg_replay net_down req_collections store_two)
      = Wrote (''HTTP/1.1 200 OK'' @ CRLF @ CRLF @ ''see http://127.0.0.1:8081/fakeogcapi/x'')"
    using replay_not_found_iff [where cfg = cfg_replay and net = net_down
        and self = req_collections and fs = store_two and d = good_record, OF 1] 4 5
    by simp
  from a b c show ?thesis
    by (simp only: simp_thms)
qed

text \<open>
  Claim C5 as the specification states it fails for a path with a NUL byte: there is no
  fixture file, and the request is not answered with the 404; \<^verbatim>\<open>ValueError\<close> leaves
  the handler.
\<close>

theorem replay_not_found_iff_counterexample:
  "path req_nul = ''/fakeogcapi/'' @ [CHR 0x00]
   \<and> request_data_path cfg_replay req_nul = ''data/ogcapi/request_'' @ [CHR 0x00] @ ''.http_data''
   \<and> store_none (request_data_path cfg_replay req_nul) = None
   \<and> reply (do_GET cfg_replay net_down req_nul store_none) = Raised ValueError
   \<and> reply (do_GET cfg_replay net_down req_nul store_none)
       \<noteq> SendError 404 (''File Not Found: '' @ path req_nul)
           ''The requested URL was not found on this server.''"
proof -
  have "path req_nul = ''/fakeogcapi/'' @ [CHR 0x00]"
    by (simp add: req_nul_def NUL_def)
  moreover have "request_data_path cfg_replay req_nul
      = ''data/ogcapi/request_'' @ [CHR 0x00] @ ''.http_data''"
    using path_nul by (simp add: NUL_def)
  moreover have "store_none (request_data_path cfg_replay req_nul) = None"
    by (simp add: store_none_def)
  moreover have "reply (do_GET cfg_replay net_down req_nul store_none) = Raised ValueError"
    by (simp add: replay_nul_run)
  ultimately show ?thesis
    by simp
qed

section \<open>Recording\<close>





section \<open>Replay: the store\<close>

text \<open>
  Claim C7. In replay mode no GET changes the Fixture Store, and nothing is fetched: the
  rewriting of ports touches the bytes of the answer only.
\<close>

theorem replay_store_unchanged:
  "\<not> RECORD cfg \<Longrightarrow>
     store (do_GET cfg net self fs) = fs \<and> fetched (do_GET cfg net self fs) = []"
  by (rule do_GET_replay_store)

text \<open>
  Claim C7, an instance: the record made on port 8080 is still in the store after it was
  served with port 8081.
\<close>

theorem replay_store_unchanged_witness:
  "store (do_GET cfg_replay net_down req_collections store_two) = store_two
   \<and> fetched (do_GET cfg_replay net_down req_collections store_two) = []"
proof -
  have "\<not> RECORD cfg_replay"
    by (rule cfg_replay_simps)
  then show ?thesis
    by (rule replay_store_unchanged)
qed

section \<open>The key is a function of the path\<close>

text \<open>
  Claim C8. The Fixture Key is a function of the request path alone: two requests with
  the same path derive the same key, whatever the peer, the port, the toggles, the store
  and the upstream are, and the file of that key is the only one a GET can change.
\<close>

theorem key_deterministic:
  assumes "path s1 = path s2" and "BASE_TEST_DATA_PATH c1 = BASE_TEST_DATA_PATH c2"
  shows "sanitize_url (path s1) = sanitize_url (path s2)
       \<and> request_data_path c1 s1 = request_data_path c2 s2
       \<and> (p \<noteq> request_data_path c2 s2 \<longrightarrow> store (do_GET c1 net s1 fs) p = fs p)"
proof -
  have "request_data_path c1 s1 = request_data_path c2 s2"
    using assms by (simp add: request_data_path_def)
  then show ?thesis
    using assms(1) by (simp add: do_GET_frame)
qed

text \<open>
  Claim C8, an instance: the same path, asked in replay by a local peer of port 8081 and
  while recording by another peer of port 54321.
\<close>

theorem key_deterministic_witness:
  "sanitize_url (path req_collections) = sanitize_url (path req_elsewhere)
   \<and> request_data_path cfg_replay req_collections = request_data_path cfg_record req_elsewhere
   \<and> store (do_GET cfg_replay net_down req_collections store_one)
         ''data/ogcapi/other.http_data'' = store_one ''data/ogcapi/other.http_data''"
proof -
  have 1: "path req_collections = path req_elsewhere"
    by (simp add: req_collections_def req_elsewhere_def)
  have 2: "BASE_TEST_DATA_PATH cfg_replay = BASE_TEST_DATA_PATH cfg_record"
    by (simp add: cfg_replay_def cfg_record_def)
  have p: "request_data_path cfg_replay req_collections = collections_key"
    by (rule path_req_collections) (rule cfg_replay_simps)
  have 3: "''data/ogcapi/other.http_data'' \<noteq> collections_key"
    by (simp add: collections_key_def)
  show ?thesis
    using key_deterministic [where ?s1.0 = req_collections and ?s2.0 = req_elsewhere
        and ?c1.0 = cfg_replay and ?c2.0 = cfg_record and net = net_down and fs = store_one
        and p = "''data/ogcapi/other.http_data''", OF 1 2] p 3
    by simp
qed

section \<open>What a derived key is made of\<close>

lemma set_replace_str:
  "old \<noteq> [] \<Longrightarrow> set (replace_str old new s) \<subseteq> set s \<union> set new"
proof (induction old new s rule: replace_str.induct)
  case (1 old new s)
  show ?case
  proof (cases "s = []")
    case True
    with 1(3) show ?thesis
      by (simp add: replace_str_Nil)
  next
    case ne: False
    show ?thesis
    proof (cases "prefix old s")
      case True
      have "set (drop (length old) s) \<subseteq> set s"
        by (rule set_drop_subset)
      with 1(1) [OF 1(3) ne True] 1(3) True show ?thesis
        by (subst replace_str_hit) auto
    next
      case False
      from ne obtain c cs where s: "s = c # cs"
        by (cases s) auto
      with 1(2) [OF 1(3) ne False] 1(3) False show ?thesis
        by (simp add: replace_str_miss) auto
    qed
  qed
qed

lemma decimal_at_parts:
  assumes "decimal_at s = Some (kept, rest)"
  shows "set kept \<subseteq> set s" and "set rest \<subseteq> set s"
proof -
  define r where "r = dropWhile is_digit s"
  from assms have r: "r \<noteq> []" "hd r = CHR ''.''"
    and k: "kept = takeWhile is_digit s @ ''.'' @ take 4 (tl r)"
    and rest: "rest = dropWhile is_digit (tl r)"
    by (auto simp: decimal_at_def Let_def r_def split: if_splits)
  have rs: "set r \<subseteq> set s"
    unfolding r_def by (auto dest: set_dropWhileD)
  have "set (tl r) \<subseteq> set r"
    by (cases r) auto
  with rs have tl: "set (tl r) \<subseteq> set s"
    by blast
  have "CHR ''.'' \<in> set r"
    using r by (cases r) auto
  moreover have "set (take 4 (tl r)) \<subseteq> set (tl r)"
    by (rule set_take_subset)
  moreover have "set (takeWhile is_digit s) \<subseteq> set s"
    by (auto dest: set_takeWhileD)
  ultimately show "set kept \<subseteq> set s"
    using rs tl unfolding k by auto
  show "set rest \<subseteq> set s"
    unfolding rest using tl by (auto dest: set_dropWhileD)
qed

lemma set_truncate_decimals: "set (truncate_decimals s) \<subseteq> set s"
proof (induction s rule: truncate_decimals.induct)
  case (1 s)
  show ?case
  proof (cases "decimal_at s")
    case None
    show ?thesis
    proof (cases "s = []")
      case True
      then show ?thesis
        by (simp add: truncate_decimals_Nil)
    next
      case False
      with 1(1) [OF None False] None show ?thesis
        by (cases s) (auto simp: truncate_decimals_miss)
    qed
  next
    case (Some kr)
    obtain kept rest where kr: "kr = (kept, rest)"
      by (cases kr)
    from 1(2) [OF Some] kr have "set (truncate_decimals rest) \<subseteq> set rest"
      by simp
    with decimal_at_parts [of s kept rest] Some kr show ?thesis
      by (auto simp: truncate_decimals_hit)
  qed
qed

lemma fill_reserved_clean: "c \<in> set (fill_reserved s) \<Longrightarrow> c \<notin> set reserved_chars"
  by (auto simp: fill_reserved_def reserved_chars_def)

lemma sanitize_url_clean:
  assumes "c \<in> set (sanitize_url s)"
  shows "c \<notin> set reserved_chars"
proof -
  have "set (sanitize_url s) \<subseteq> set (truncate_decimals (fill_reserved s)) \<union> set ''request''"
    unfolding sanitize_url_closed by (rule set_replace_str) simp
  with assms set_truncate_decimals [of "fill_reserved s"]
  have "c \<in> set (fill_reserved s) \<or> c \<in> set ''request''"
    by blast
  then show ?thesis
  proof
    assume "c \<in> set (fill_reserved s)"
    then show ?thesis by (rule fill_reserved_clean)
  next
    assume "c \<in> set ''request''"
    then show ?thesis by (auto simp: reserved_chars_def)
  qed
qed

section \<open>No marker is left\<close>

lemma marker_prefix_back:
  "prefix w (replace_str ''_fakeogcapi'' ''request'' cs) \<Longrightarrow>
     CHR ''_'' \<notin> set w \<Longrightarrow> CHR ''r'' \<notin> set w \<Longrightarrow> prefix w cs"
proof (induction w arbitrary: cs)
  case Nil
  then show ?case by simp
next
  case (Cons x w)
  show ?case
  proof (cases cs)
    case Nil
    with Cons.prems(1) show ?thesis
      by (simp add: marker_Nil)
  next
    case (Cons c cs')
    show ?thesis
    proof (cases "prefix ''_fakeogcapi'' cs")
      case True
      then obtain t where "cs = ''_fakeogcapi'' @ t"
        by (auto simp: prefix_def)
      with Cons.prems(1,3) show ?thesis
        by (simp only: marker_hit) auto
    next
      case False
      with Cons.prems(1) Cons
      have "x = c" and "prefix w (replace_str ''_fakeogcapi'' ''request'' cs')"
        by (simp_all add: marker_miss)
      with Cons.IH [of cs'] Cons.prems(2,3) Cons show ?thesis
        by simp
    qed
  qed
qed

lemma marker_not_prefix: "\<not> prefix ''_fakeogcapi'' (replace_str ''_fakeogcapi'' ''request'' s)"
proof (cases s)
  case Nil
  then show ?thesis
    by (simp add: marker_Nil)
next
  case (Cons c cs)
  show ?thesis
  proof (cases "prefix ''_fakeogcapi'' s")
    case True
    then obtain t where "s = ''_fakeogcapi'' @ t"
      by (auto simp: prefix_def)
    then show ?thesis
      by (simp only: marker_hit) simp
  next
    case False
    show ?thesis
    proof
      define out where "out = replace_str ''_fakeogcapi'' ''request'' cs"
      assume "prefix ''_fakeogcapi'' (replace_str ''_fakeogcapi'' ''request'' s)"
      moreover have "replace_str ''_fakeogcapi'' ''request'' s = c # out"
        using False Cons by (simp add: marker_miss out_def)
      ultimately have "prefix ''_fakeogcapi'' (c # out)"
        by simp
      then have c: "c = CHR ''_''" and "prefix ''fakeogcapi'' out"
        by auto
      from this(2) have "prefix ''fakeogcapi'' cs"
        unfolding out_def by (rule marker_prefix_back) simp_all
      then have "prefix ''_fakeogcapi'' (CHR ''_'' # cs)"
        by simp
      with c Cons False show False
        by blast
    qed
  qed
qed

lemma marker_gone: "\<not> sublist ''_fakeogcapi'' (replace_str ''_fakeogcapi'' ''request'' s)"
proof (induction s rule: length_induct)
  case (1 s)
  show ?case
  proof (cases s)
    case Nil
    then show ?thesis
      by (simp add: marker_Nil)
  next
    case (Cons c cs)
    show ?thesis
    proof (cases "prefix ''_fakeogcapi'' s")
      case True
      then obtain t where t: "s = ''_fakeogcapi'' @ t"
        by (auto simp: prefix_def)
      then have "length t < length s"
        by simp
      with 1 have "\<not> sublist ''_fakeogcapi'' (replace_str ''_fakeogcapi'' ''request'' t)"
        by blast
      then show ?thesis
        unfolding t by (simp only: marker_hit) (simp add: sublist_Cons_right)
    next
      case False
      have "\<not> sublist ''_fakeogcapi'' (replace_str ''_fakeogcapi'' ''request'' cs)"
        using 1 Cons by simp
      moreover have "\<not> prefix ''_fakeogcapi'' (replace_str ''_fakeogcapi'' ''request'' s)"
        by (rule marker_not_prefix)
      ultimately show ?thesis
        using False Cons by (simp add: marker_miss sublist_Cons_right)
    qed
  qed
qed

lemma marker_absent_id:
  "\<not> sublist ''_fakeogcapi'' s \<Longrightarrow> replace_str ''_fakeogcapi'' ''request'' s = s"
proof (induction s)
  case Nil
  then show ?case by (simp add: marker_Nil)
next
  case (Cons c cs)
  then show ?case
    by (simp add: sublist_Cons_right marker_miss)
qed

section \<open>Decimal numbers between other text\<close>

lemma takeWhile_digits_append:
  "list_all is_digit ds \<Longrightarrow> takeWhile is_digit (ds @ t) = ds @ takeWhile is_digit t"
  by (induction ds) simp_all

lemma dropWhile_digits_append:
  "list_all is_digit ds \<Longrightarrow> dropWhile is_digit (ds @ t) = dropWhile is_digit t"
  by (induction ds) simp_all

lemma takeWhile_stop: "t = [] \<or> \<not> is_digit (hd t) \<Longrightarrow> takeWhile is_digit t = []"
  by (cases t) auto

lemma dropWhile_stop: "t = [] \<or> \<not> is_digit (hd t) \<Longrightarrow> dropWhile is_digit t = t"
  by (cases t) auto

lemma point_not_digit: "\<not> is_digit (CHR ''.'')"
  by (simp add: is_digit_def)

lemma decimal_at_shape:
  assumes "ds \<noteq> []" and "list_all is_digit ds" and "list_all is_digit fs" and "4 < length fs"
    and "post = [] \<or> \<not> is_digit (hd post)"
  shows "decimal_at (ds @ ''.'' @ fs @ post) = Some (ds @ ''.'' @ take 4 fs, post)"
proof -
  have w: "takeWhile is_digit (ds @ ''.'' @ fs @ post) = ds"
    using assms(2) by (simp add: takeWhile_digits_append point_not_digit)
  have r: "dropWhile is_digit (ds @ ''.'' @ fs @ post) = ''.'' @ fs @ post"
    using assms(2) by (simp add: dropWhile_digits_append point_not_digit)
  have f: "takeWhile is_digit (fs @ post) = fs"
    using assms(3,5) by (simp add: takeWhile_digits_append takeWhile_stop)
  have p: "dropWhile is_digit (fs @ post) = post"
    using assms(3,5) by (simp add: dropWhile_digits_append dropWhile_stop)
  show ?thesis
    unfolding decimal_at_def Let_def w r using assms(1,4) by (simp add: f p)
qed

lemma decimal_at_digits_only:
  assumes "list_all is_digit ds" and "t = [] \<or> (\<not> is_digit (hd t) \<and> hd t \<noteq> CHR ''.'')"
  shows "decimal_at (ds @ t) = None"
proof -
  have "dropWhile is_digit (ds @ t) = t"
    using assms by (auto simp: dropWhile_digits_append dropWhile_stop)
  with assms(2) show ?thesis
    unfolding decimal_at_def Let_def by auto
qed

lemma decimal_at_few:
  assumes "list_all is_digit ds" and "list_all is_digit fs" and "length fs \<le> 4"
    and "t = [] \<or> \<not> is_digit (hd t)"
  shows "decimal_at (ds @ ''.'' @ fs @ t) = None"
proof -
  have r: "dropWhile is_digit (ds @ ''.'' @ fs @ t) = ''.'' @ fs @ t"
    using assms(1) by (simp add: dropWhile_digits_append point_not_digit)
  have f: "takeWhile is_digit (fs @ t) = fs"
    using assms(2,4) by (simp add: takeWhile_digits_append takeWhile_stop)
  show ?thesis
    unfolding decimal_at_def Let_def r using assms(3) by (simp add: f)
qed

text \<open>
  Text that ends in a character which is neither a digit nor a point is scanned without
  regard to what follows it.
\<close>

lemma suffix_last: "suffix r a \<Longrightarrow> r \<noteq> [] \<Longrightarrow> last r = last a"
  by (auto simp: suffix_def)

lemma last_in_set_nondigit:
  "a \<noteq> [] \<Longrightarrow> \<not> is_digit (last a) \<Longrightarrow> \<exists>x\<in>set a. \<not> is_digit x"
  using last_in_set by blast

lemma decimal_at_append:
  assumes "a \<noteq> []" and "\<not> is_digit (last a)" and "last a \<noteq> CHR ''.''"
  shows "decimal_at (a @ b) = map_option (\<lambda>kr. (fst kr, snd kr @ b)) (decimal_at a)"
proof -
  define r where "r = dropWhile is_digit a"
  have ex: "\<exists>x\<in>set a. \<not> is_digit x"
    using assms(1,2) by (rule last_in_set_nondigit)
  then have w: "takeWhile is_digit (a @ b) = takeWhile is_digit a"
    by (auto simp: takeWhile_append1)
  have rb: "dropWhile is_digit (a @ b) = r @ b"
    using ex unfolding r_def by (auto simp: dropWhile_append1)
  have rne: "r \<noteq> []"
    using ex unfolding r_def by auto
  have a: "a = takeWhile is_digit a @ r"
    by (simp add: r_def)
  have lr: "last r = last a"
    using rne by (rule suffix_last [OF suffix_dropWhile [of is_digit a, folded r_def]])
  show ?thesis
  proof (cases "hd r = CHR ''.''")
    case False
    with rne show ?thesis
      unfolding decimal_at_def Let_def w rb r_def [symmetric] by simp
  next
    case True
    have tlne: "tl r \<noteq> []"
    proof
      assume "tl r = []"
      with rne True have "r = ''.''"
        by (cases r) auto
      with lr assms(3) show False
        by simp
    qed
    then have "last (tl r) = last a"
      using lr rne by (cases r) auto
    with tlne assms(2) have ex2: "\<exists>x\<in>set (tl r). \<not> is_digit x"
      using last_in_set_nondigit [of "tl r"] by simp
    then have f: "takeWhile is_digit (tl r @ b) = takeWhile is_digit (tl r)"
      by (auto simp: takeWhile_append1)
    have p: "dropWhile is_digit (tl r @ b) = dropWhile is_digit (tl r) @ b"
      using ex2 by (auto simp: dropWhile_append1)
    have t4: "take 4 (tl r @ b) = take 4 (tl r)"
      if "5 \<le> length (takeWhile is_digit (tl r))"
    proof -
      have "length (takeWhile is_digit (tl r)) \<le> length (tl r)"
        by (rule length_takeWhile_le)
      with that show ?thesis
        by simp
    qed
    have tlb: "tl (r @ b) = tl r @ b"
      using rne by simp
    have hdb: "hd (r @ b) = hd r"
      using rne by simp
    show ?thesis
      unfolding decimal_at_def Let_def w rb r_def [symmetric] tlb hdb f p
      using rne t4 by simp
  qed
qed

lemma truncate_decimals_append:
  "a = [] \<or> (\<not> is_digit (last a) \<and> last a \<noteq> CHR ''.'') \<Longrightarrow>
     truncate_decimals (a @ b) = truncate_decimals a @ truncate_decimals b"
proof (induction a rule: truncate_decimals.induct)
  case (1 a)
  show ?case
  proof (cases "a = []")
    case True
    then show ?thesis
      by (simp add: truncate_decimals_Nil)
  next
    case ne: False
    with 1(3) have l: "\<not> is_digit (last a)" "last a \<noteq> CHR ''.''"
      by auto
    note ap = decimal_at_append [OF ne l, of b]
    show ?thesis
    proof (cases "decimal_at a")
      case None
      with ap have nb: "decimal_at (a @ b) = None"
        by simp
      from ne obtain c cs where a: "a = c # cs"
        by (cases a) auto
      have "cs = [] \<or> (\<not> is_digit (last cs) \<and> last cs \<noteq> CHR ''.'')"
        using l a by auto
      with 1(1) [OF None ne] a
      have "truncate_decimals (cs @ b) = truncate_decimals cs @ truncate_decimals b"
        by simp
      with None nb a show ?thesis
        by (simp add: truncate_decimals_miss)
    next
      case (Some kr)
      obtain kept rest where kr: "kr = (kept, rest)"
        by (cases kr)
      with Some ap have hb: "decimal_at (a @ b) = Some (kept, rest @ b)"
        by simp
      have "suffix rest a"
      proof -
        from Some kr have "rest = dropWhile is_digit (tl (dropWhile is_digit a))"
          by (auto simp: decimal_at_def Let_def split: if_splits)
        moreover have "suffix (dropWhile is_digit (tl (dropWhile is_digit a)))
            (tl (dropWhile is_digit a))"
          by (rule suffix_dropWhile)
        moreover have "suffix (tl (dropWhile is_digit a)) (dropWhile is_digit a)"
          by (rule suffix_tl)
        moreover have "suffix (dropWhile is_digit a) a"
          by (rule suffix_dropWhile)
        ultimately show ?thesis
          by (meson suffix_order.trans)
      qed
      then have "rest = [] \<or> last rest = last a"
        using suffix_last [of rest a] by blast
      with l have "rest = [] \<or> (\<not> is_digit (last rest) \<and> last rest \<noteq> CHR ''.'')"
        by auto
      with 1(2) [OF Some] kr
      have "truncate_decimals (rest @ b) = truncate_decimals rest @ truncate_decimals b"
        by simp
      with Some kr hb show ?thesis
        by (simp add: truncate_decimals_hit)
    qed
  qed
qed

section \<open>The marker between other text\<close>

lemma marker_append:
  assumes "w = [] \<or> hd w \<notin> set ''fakeogcapi''"
  shows "replace_str ''_fakeogcapi'' ''request'' (u @ w)
       = replace_str ''_fakeogcapi'' ''request'' u @ replace_str ''_fakeogcapi'' ''request'' w"
proof (induction u rule: length_induct)
  case (1 u)
  show ?case
  proof (cases u)
    case Nil
    then show ?thesis
      by (simp add: marker_Nil)
  next
    case (Cons c cs)
    show ?thesis
    proof (cases "prefix ''_fakeogcapi'' u")
      case True
      then obtain t where t: "u = ''_fakeogcapi'' @ t"
        by (auto simp: prefix_def)
      then have "length t < length u"
        by simp
      with 1 have "replace_str ''_fakeogcapi'' ''request'' (t @ w)
          = replace_str ''_fakeogcapi'' ''request'' t @ replace_str ''_fakeogcapi'' ''request'' w"
        by blast
      then show ?thesis
        unfolding t using marker_hit [of "t @ w"] marker_hit [of t] by simp
    next
      case False
      have nb: "\<not> prefix ''_fakeogcapi'' (u @ w)"
      proof
        assume "prefix ''_fakeogcapi'' (u @ w)"
        with False obtain us where us: "''_fakeogcapi'' = u @ us" "prefix us w"
          unfolding prefix_append by blast
        with False have "us \<noteq> []"
          by auto
        with us(2) have "w \<noteq> []" and "hd w = hd us"
          by (auto simp: prefix_def)
        moreover have "hd us \<in> set ''fakeogcapi''"
        proof -
          from us(1) Cons have "''fakeogcapi'' = cs @ us"
            by simp
          with \<open>us \<noteq> []\<close> show ?thesis
            by (metis hd_in_set in_set_conv_decomp Un_iff set_append)
        qed
        ultimately show False
          using assms by auto
      qed
      have "replace_str ''_fakeogcapi'' ''request'' (cs @ w)
          = replace_str ''_fakeogcapi'' ''request'' cs @ replace_str ''_fakeogcapi'' ''request'' w"
        using 1 Cons by simp
      with False nb Cons show ?thesis
        by (simp add: marker_miss)
    qed
  qed
qed

lemma sanitize_url_Nil: "sanitize_url [] = []"
  by (simp add: sanitize_url_closed fill_reserved_def truncate_decimals_Nil marker_Nil)

lemma sanitize_url_plain:
  assumes "fill_reserved p = q" and "\<forall>c\<in>set q. \<not> is_digit c" and "\<not> sublist ''_fakeogcapi'' q"
  shows "sanitize_url p = q"
  using assms by (simp add: sanitize_url_closed truncate_decimals_plain marker_absent_id)

lemma digit_plain:
  assumes "is_digit c"
  shows "c \<notin> set reserved_chars" and "c \<noteq> CHR ''_''" and "c \<notin> set ''fakeogcapi''"
    and "c \<noteq> CHR ''.''"
  using assms by (auto simp: is_digit_def reserved_chars_def)

lemma fill_reserved_digits: "list_all is_digit ds \<Longrightarrow> fill_reserved ds = ds"
  by (induction ds) (simp_all add: fill_reserved_def digit_plain(1))

lemma fill_reserved_last:
  assumes "pre = [] \<or> (\<not> is_digit (last pre) \<and> last pre \<noteq> CHR ''.'')"
  shows "fill_reserved pre = [] \<or>
         (\<not> is_digit (last (fill_reserved pre)) \<and> last (fill_reserved pre) \<noteq> CHR ''.'')"
proof (cases "pre = []")
  case True
  then show ?thesis
    by (simp add: fill_reserved_def)
next
  case False
  then have "last (fill_reserved pre)
      = (if last pre \<in> set reserved_chars then CHR ''_'' else last pre)"
    by (simp add: fill_reserved_def last_map)
  with assms False show ?thesis
    by (auto simp: is_digit_def)
qed

lemma fill_reserved_hd:
  assumes "post = [] \<or> \<not> is_digit (hd post)"
  shows "fill_reserved post = [] \<or> \<not> is_digit (hd (fill_reserved post))"
proof (cases post)
  case Nil
  then show ?thesis
    by (simp add: fill_reserved_def)
next
  case (Cons c cs)
  with assms show ?thesis
    by (auto simp: fill_reserved_def is_digit_def)
qed

lemma truncate_decimals_number:
  assumes "ds \<noteq> []" and "list_all is_digit ds" and "list_all is_digit fs" and "4 < length fs"
    and "a = [] \<or> (\<not> is_digit (last a) \<and> last a \<noteq> CHR ''.'')"
    and "q = [] \<or> \<not> is_digit (hd q)"
  shows "truncate_decimals (a @ ds @ ''.'' @ fs @ q)
       = truncate_decimals a @ (ds @ ''.'' @ take 4 fs) @ truncate_decimals q"
proof -
  have "decimal_at (ds @ ''.'' @ fs @ q) = Some (ds @ ''.'' @ take 4 fs, q)"
    using assms(1-4,6) by (rule decimal_at_shape)
  then have "truncate_decimals (ds @ ''.'' @ fs @ q)
      = (ds @ ''.'' @ take 4 fs) @ truncate_decimals q"
    by (rule truncate_decimals_hit)
  with truncate_decimals_append [OF assms(5), of "ds @ ''.'' @ fs @ q"] show ?thesis
    by simp
qed

lemma marker_number:
  assumes "ds \<noteq> []" and "list_all is_digit ds" and "list_all is_digit f4"
  shows "replace_str ''_fakeogcapi'' ''request'' (u @ (ds @ ''.'' @ f4) @ v)
       = replace_str ''_fakeogcapi'' ''request'' u @ (ds @ ''.'' @ f4)
         @ replace_str ''_fakeogcapi'' ''request'' v"
proof -
  have "is_digit (hd ds)"
    using assms(1,2) by (cases ds) auto
  then have "hd ((ds @ ''.'' @ f4) @ v) \<notin> set ''fakeogcapi''"
    using assms(1) digit_plain(3) by simp
  then have "replace_str ''_fakeogcapi'' ''request'' (u @ (ds @ ''.'' @ f4) @ v)
      = replace_str ''_fakeogcapi'' ''request'' u
        @ replace_str ''_fakeogcapi'' ''request'' ((ds @ ''.'' @ f4) @ v)"
    by (intro marker_append) simp
  moreover have "CHR ''_'' \<notin> set (ds @ ''.'' @ f4)"
    using assms(2,3) digit_plain(2) by (auto simp: list_all_iff)
  then have "replace_str ''_fakeogcapi'' ''request'' ((ds @ ''.'' @ f4) @ v)
      = (ds @ ''.'' @ f4) @ replace_str ''_fakeogcapi'' ''request'' v"
    by (rule marker_skip)
  ultimately show ?thesis
    by simp
qed

section \<open>Key derivation: reserved characters and the marker\<close>

lemma upstream_key_hd:
  "sanitize_url (''/ogcapi'' @ rest) = CHR ''_'' # tl (sanitize_url (''/ogcapi'' @ rest))"
proof -
  have "fill_reserved (''/ogcapi'' @ rest) = ''_ogcapi'' @ fill_reserved rest"
    by (simp add: fill_reserved_def reserved_chars_def)
  moreover have "truncate_decimals (''_ogcapi'' @ fill_reserved rest)
      = ''_ogcapi'' @ truncate_decimals (fill_reserved rest)"
    by (rule truncate_decimals_skip) (simp add: is_digit_def)
  moreover have "replace_str ''_fakeogcapi'' ''request''
        (''_ogcapi'' @ truncate_decimals (fill_reserved rest))
      = CHR ''_'' # replace_str ''_fakeogcapi'' ''request''
          (''ogcapi'' @ truncate_decimals (fill_reserved rest))"
    using marker_miss [of "CHR ''_''" "''ogcapi'' @ truncate_decimals (fill_reserved rest)"]
    by simp
  ultimately show ?thesis
    by (simp add: sanitize_url_closed)
qed

lemma upstream_key_differs:
  "sanitize_url (''/ogcapi'' @ rest) \<noteq> sanitize_url (''/fakeogcapi'' @ rest)"
proof
  assume "sanitize_url (''/ogcapi'' @ rest) = sanitize_url (''/fakeogcapi'' @ rest)"
  then have "CHR ''_'' # tl (sanitize_url (''/ogcapi'' @ rest)) = ''request'' @ sanitize_url rest"
    using upstream_key_hd [of rest] by (simp only: sanitize_url_fake)
  then show False
    by simp
qed

text \<open>
  Claim C3, as the code has it. Key derivation puts the filler \<^verbatim>\<open>_\<close> for every
  character of the reserved set, truncates the decimals and puts the literal
  \<^verbatim>\<open>request\<close> for the marker \<^verbatim>\<open>_fakeogcapi\<close>, which is what the filler has made of
  \<^verbatim>\<open>/fakeogcapi\<close>. No reserved character is left in a key, and a synthetic path
  \<^verbatim>\<open>/fakeogcapi\<close>\<open>rest\<close> derives the key of the path \<^verbatim>\<open>request\<close>\<open>rest\<close>, which is
  \<^verbatim>\<open>request\<close> and the key of \<open>rest\<close>. The path of the upstream endpoint,
  \<^verbatim>\<open>/ogcapi\<close>\<open>rest\<close>, derives another key, whatever \<open>rest\<close> is.
\<close>

theorem sanitize_url_replaces:
  "sanitize_url p
     = replace_str ''_fakeogcapi'' ''request''
         (re_sub REPLACE_PRECISION_RE [Ref1]
            (map (\<lambda>c. if c \<in> set ''&#/?=:,()'' then CHR ''_'' else c) p))
   \<and> (\<forall>c\<in>set (sanitize_url p). c \<notin> set ''&#/?=:,()'')
   \<and> sanitize_url (''/fakeogcapi'' @ rest) = ''request'' @ sanitize_url rest
   \<and> sanitize_url (''/fakeogcapi'' @ rest) = sanitize_url (''request'' @ rest)
   \<and> sanitize_url (''/ogcapi'' @ rest) \<noteq> sanitize_url (''/fakeogcapi'' @ rest)"
proof -
  have "sanitize_url p
     = replace_str ''_fakeogcapi'' ''request''
         (re_sub REPLACE_PRECISION_RE [Ref1]
            (map (\<lambda>c. if c \<in> set ''&#/?=:,()'' then CHR ''_'' else c) p))"
    unfolding sanitize_url_closed re_sub_precision fill_reserved_def reserved_chars_def ..
  moreover have "\<forall>c\<in>set (sanitize_url p). c \<notin> set ''&#/?=:,()''"
    using sanitize_url_clean [of _ p] unfolding reserved_chars_def by blast
  moreover have "sanitize_url (''/fakeogcapi'' @ rest) = ''request'' @ sanitize_url rest"
    by (rule sanitize_url_fake)
  moreover have "sanitize_url (''/fakeogcapi'' @ rest) = sanitize_url (''request'' @ rest)"
    by (simp only: sanitize_url_fake sanitize_url_request)
  moreover have "sanitize_url (''/ogcapi'' @ rest) \<noteq> sanitize_url (''/fakeogcapi'' @ rest)"
    by (rule upstream_key_differs)
  ultimately show ?thesis
    by (simp only: simp_thms)
qed

text \<open>Claim C3, an instance: a synthetic path with a query.\<close>

theorem sanitize_url_replaces_witness:
  "sanitize_url ''/fakeogcapi/collections?f=json'' = ''request_collections_f_json''
   \<and> sanitize_url ''request/collections?f=json'' = ''request_collections_f_json''"
proof -
  have "sanitize_url ''/collections?f=json'' = ''_collections_f_json''"
    by (rule sanitize_url_plain)
      (simp_all add: fill_reserved_def reserved_chars_def is_digit_def sublist_Cons_right)
  moreover have "sanitize_url (''/fakeogcapi'' @ ''/collections?f=json'')
        = ''request'' @ sanitize_url ''/collections?f=json''"
    and "sanitize_url (''/fakeogcapi'' @ ''/collections?f=json'')
        = sanitize_url (''request'' @ ''/collections?f=json'')"
    using sanitize_url_replaces [of "[]" "''/collections?f=json''"] by blast+
  ultimately have "sanitize_url (''/fakeogcapi'' @ ''/collections?f=json'')
        = ''request'' @ ''_collections_f_json''"
    and "sanitize_url (''request'' @ ''/collections?f=json'')
        = ''request'' @ ''_collections_f_json''"
    by (simp_all only:)
  then show ?thesis
    by simp
qed

text \<open>
  Claim C3 as the specification states it fails: the path of the collections on the
  upstream endpoint derives another key than the synthetic path of the collections.
\<close>

theorem sanitize_url_replaces_counterexample:
  "sanitize_url ''/fakeogcapi/collections'' = ''request_collections''
   \<and> sanitize_url ''/ogcapi/collections'' = ''_ogcapi_collections''
   \<and> sanitize_url ''/fakeogcapi/collections'' \<noteq> sanitize_url ''/ogcapi/collections''"
proof -
  have "sanitize_url ''/ogcapi/collections'' = ''_ogcapi_collections''"
    by (rule sanitize_url_plain)
      (simp_all add: fill_reserved_def reserved_chars_def is_digit_def sublist_Cons_right)
  then show ?thesis
    by (simp add: key_collections)
qed

section \<open>Key derivation: decimals\<close>

text \<open>
  Claim C4, as the code has it. A decimal number of the path, that is one digit or more,
  a point and more than four digits, standing at the start or behind a character that is
  neither a digit nor a point, and not followed by a digit, is cut behind the fourth
  digit after the point, whatever the digits cut off are; the text before and behind it
  is derived on its own.
\<close>

theorem decimals_truncated:
  assumes "ds \<noteq> []" and "list_all is_digit ds" and "list_all is_digit fs" and "4 < length fs"
    and "pre = [] \<or> (\<not> is_digit (last pre) \<and> last pre \<noteq> CHR ''.'')"
    and "post = [] \<or> \<not> is_digit (hd post)"
  shows "sanitize_url (pre @ ds @ ''.'' @ fs @ post)
       = sanitize_url pre @ ds @ ''.'' @ take 4 fs @ sanitize_url post"
proof -
  have "fill_reserved ''.'' = ''.''"
    by (simp add: fill_reserved_def reserved_chars_def)
  then have "fill_reserved (pre @ ds @ ''.'' @ fs @ post)
      = fill_reserved pre @ ds @ ''.'' @ fs @ fill_reserved post"
    using assms(2,3) by (simp only: fill_reserved_append fill_reserved_digits)
  moreover have "truncate_decimals (fill_reserved pre @ ds @ ''.'' @ fs @ fill_reserved post)
      = truncate_decimals (fill_reserved pre) @ (ds @ ''.'' @ take 4 fs)
        @ truncate_decimals (fill_reserved post)"
    using assms(1-4) fill_reserved_last [OF assms(5)] fill_reserved_hd [OF assms(6)]
    by (rule truncate_decimals_number)
  moreover have "list_all is_digit (take 4 fs)"
    using assms(3) by (auto simp: list_all_iff dest: in_set_takeD)
  ultimately show ?thesis
    using marker_number [OF assms(1,2), of "take 4 fs"]
    by (simp add: sanitize_url_closed)
qed

text \<open>Claim C4, the two numbers of the specification.\<close>

theorem decimals_truncated_witness:
  "sanitize_url ''53.54210000001'' = ''53.5421'' \<and> sanitize_url ''53.54219999'' = ''53.5421''"
proof -
  have 1: "''53'' \<noteq> []" and 2: "list_all is_digit ''53''"
    and 3: "list_all is_digit ''54210000001''" and 4: "4 < length ''54210000001''"
    and 5: "list_all is_digit ''54219999''" and 6: "4 < length ''54219999''"
    and 7: "([]::string) = [] \<or> (\<not> is_digit (last []) \<and> last [] \<noteq> CHR ''.'')"
    and 8: "([]::string) = [] \<or> \<not> is_digit (hd [])"
    by (simp_all add: is_digit_def)
  show ?thesis
    using decimals_truncated [where pre = "[]" and post = "[]", OF 1 2 3 4 7 8]
      decimals_truncated [where pre = "[]" and post = "[]", OF 1 2 5 6 7 8]
    by (simp add: sanitize_url_Nil)
qed

text \<open>
  Claim C4 as the specification states it fails for a number with no digit before its
  point, which is not cut, and for a number behind the point of a number that is cut:
  of \<^verbatim>\<open>7.000001.54210000001\<close> the digits behind the second point all stay.
\<close>

theorem decimals_truncated_counterexample:
  "sanitize_url ''.54210000001'' = ''.54210000001''
   \<and> sanitize_url ''7.000001.54210000001'' = ''7.0000.54210000001''"
proof -
  have d: "truncate_decimals ''54210000001'' = ''54210000001''"
    by (simp add: truncate_decimals_miss decimal_at_def is_digit_def truncate_decimals_Nil)
  have t: "truncate_decimals ''.54210000001'' = ''.54210000001''"
    using truncate_decimals_other [of "CHR ''.''" "''54210000001''"]
    by (simp add: is_digit_def d)
  have m: "replace_str ''_fakeogcapi'' ''request'' ''.54210000001'' = ''.54210000001''"
    by (simp add: marker_other marker_Nil)
  have 1: "sanitize_url ''.54210000001'' = ''.54210000001''"
    by (simp add: sanitize_url_closed fill_reserved_def reserved_chars_def t m)
  have "decimal_at ''7.000001.54210000001'' = Some (''7.0000'', ''.54210000001'')"
    by (simp add: decimal_at_def is_digit_def)
  then have "truncate_decimals ''7.000001.54210000001''
      = ''7.0000'' @ truncate_decimals ''.54210000001''"
    by (rule truncate_decimals_hit)
  then have t2: "truncate_decimals ''7.000001.54210000001'' = ''7.0000.54210000001''"
    by (simp add: t)
  have m2: "replace_str ''_fakeogcapi'' ''request'' ''7.0000.54210000001''
      = ''7.0000.54210000001''"
    by (simp add: marker_other marker_Nil)
  have 2: "sanitize_url ''7.000001.54210000001'' = ''7.0000.54210000001''"
    by (simp add: sanitize_url_closed fill_reserved_def reserved_chars_def t2 m2)
  from 1 2 show ?thesis
    by (simp only: simp_thms)
qed

section \<open>Keys in which no decimal number is left\<close>

lemma calm_fixed: "calm x \<Longrightarrow> truncate_decimals x = x"
  by (induction x) (simp_all add: truncate_decimals_Nil truncate_decimals_miss)

lemma calm_behind: "calm (a @ b) \<Longrightarrow> calm b"
  by (induction a) simp_all

lemma calm_nondigits: "\<forall>c\<in>set a. \<not> is_digit c \<Longrightarrow> calm y \<Longrightarrow> calm (a @ y)"
  by (induction a) (simp_all add: decimal_at_other)

lemma calm_digits:
  assumes "list_all is_digit ds" and "w = [] \<or> (\<not> is_digit (hd w) \<and> hd w \<noteq> CHR ''.'')"
    and "calm w"
  shows "calm (ds @ w)"
  using assms(1)
proof (induction ds)
  case Nil
  with assms(3) show ?case by simp
next
  case (Cons d ds)
  have "decimal_at ((d # ds) @ w) = None"
    using Cons.prems assms(2) by (rule decimal_at_digits_only)
  with Cons show ?case
    by simp
qed

lemma calm_kept:
  assumes "list_all is_digit ds" and "list_all is_digit f4" and "length f4 \<le> 4"
    and "w = [] \<or> (\<not> is_digit (hd w) \<and> hd w \<noteq> CHR ''.'')" and "calm w"
  shows "calm (ds @ ''.'' @ f4 @ w)"
  using assms(1)
proof (induction ds)
  case Nil
  have "calm (f4 @ w)"
    using assms(2,4,5) by (rule calm_digits)
  then show ?case
    by (simp add: decimal_at_other point_not_digit)
next
  case (Cons d ds)
  have "w = [] \<or> \<not> is_digit (hd w)"
    using assms(4) by blast
  with Cons.prems assms(2,3) have "decimal_at ((d # ds) @ ''.'' @ f4 @ w) = None"
    by (rule decimal_at_few)
  with Cons show ?case
    by simp
qed

lemma truncate_decimals_hd:
  assumes "t = [] \<or> (\<not> is_digit (hd t) \<and> hd t \<noteq> CHR ''.'')"
  shows "truncate_decimals t = [] \<or>
         (\<not> is_digit (hd (truncate_decimals t)) \<and> hd (truncate_decimals t) \<noteq> CHR ''.'')"
proof (cases t)
  case Nil
  then show ?thesis
    by (simp add: truncate_decimals_Nil)
next
  case (Cons c cs)
  with assms show ?thesis
    by (simp add: truncate_decimals_other)
qed

lemma decimal_at_run:
  assumes "list_all is_digit ds" and "ds \<noteq> []" and "r = [] \<or> \<not> is_digit (hd r)"
  shows "decimal_at (ds @ r)
       = (if r \<noteq> [] \<and> hd r = CHR ''.'' \<and> 5 \<le> length (takeWhile is_digit (tl r))
          then Some (ds @ ''.'' @ take 4 (tl r), dropWhile is_digit (tl r)) else None)"
proof -
  have "takeWhile is_digit (ds @ r) = ds"
    using assms(1,3) by (simp add: takeWhile_digits_append takeWhile_stop)
  moreover have "dropWhile is_digit (ds @ r) = r"
    using assms(1,3) by (simp add: dropWhile_digits_append dropWhile_stop)
  ultimately show ?thesis
    unfolding decimal_at_def Let_def using assms(2) by simp
qed

lemma truncate_decimals_run:
  assumes "list_all is_digit ds" and "r = [] \<or> \<not> is_digit (hd r)"
    and "ds \<noteq> [] \<longrightarrow> decimal_at (ds @ r) = None"
  shows "truncate_decimals (ds @ r) = ds @ truncate_decimals r"
  using assms(1,3)
proof (induction ds)
  case Nil
  then show ?case by simp
next
  case (Cons d ds)
  have here: "decimal_at ((d # ds) @ r) = None"
    using Cons.prems(2) by simp
  have "ds \<noteq> [] \<longrightarrow> decimal_at (ds @ r) = None"
  proof
    assume "ds \<noteq> []"
    with Cons.prems(1) assms(2) here show "decimal_at (ds @ r) = None"
      using decimal_at_run [of "d # ds" r] decimal_at_run [of ds r]
      by (simp split: if_splits)
  qed
  with Cons have "truncate_decimals (ds @ r) = ds @ truncate_decimals r"
    by simp
  with here show ?case
    by (simp add: truncate_decimals_miss)
qed

lemma dot_chain_suffix: "suffix b t \<Longrightarrow> dot_chain b \<Longrightarrow> dot_chain t"
  by (induction t) (auto simp: suffix_Cons)

lemma dot_chain_point:
  "list_all is_digit fd \<Longrightarrow> dot_chain (''.'' @ fd @ ''.'' @ x)"
  by (simp add: dropWhile_digits_append point_not_digit)

lemma digits_split:
  obtains ds r where "t = ds @ r" and "list_all is_digit ds" and "r = [] \<or> \<not> is_digit (hd r)"
    and "ds = takeWhile is_digit t" and "r = dropWhile is_digit t"
proof
  show "t = takeWhile is_digit t @ dropWhile is_digit t"
    by simp
  show "list_all is_digit (takeWhile is_digit t)"
    by (auto simp: list_all_iff dest: set_takeWhileD)
  show "dropWhile is_digit t = [] \<or> \<not> is_digit (hd (dropWhile is_digit t))"
    using hd_dropWhile [of is_digit t] by blast
qed simp_all

lemma calm_truncate_decimals:
  "\<not> dot_chain t \<Longrightarrow> calm (truncate_decimals t)"
proof (induction t rule: length_induct)
  case (1 t)
  note IH = 1(1) [rule_format]
  show ?case
  proof (cases t)
    case Nil
    then show ?thesis
      by (simp add: truncate_decimals_Nil)
  next
    case (Cons c cs)
    show ?thesis
    proof (cases "is_digit c")
      case False
      have "\<not> dot_chain cs"
        using 1(2) Cons by simp
      with IH [of cs] Cons have "calm (truncate_decimals cs)"
        by simp
      with False Cons show ?thesis
        by (simp add: truncate_decimals_other decimal_at_other)
    next
      case True
      obtain ds r where t: "t = ds @ r" and ds: "list_all is_digit ds"
        and r: "r = [] \<or> \<not> is_digit (hd r)" and dst: "ds = takeWhile is_digit t"
        by (rule digits_split)
      have dne: "ds \<noteq> []"
        using dst Cons True by simp
      have rsuf: "suffix r t"
        using t by (simp add: suffix_def)
      note run = decimal_at_run [OF ds dne r]
      show ?thesis
      proof (cases "r \<noteq> [] \<and> hd r = CHR ''.''")
        case False
        then have none: "decimal_at (ds @ r) = None"
          using run by auto
        have td: "truncate_decimals t = ds @ truncate_decimals r"
          unfolding t using ds r none by (intro truncate_decimals_run) simp_all
        have rr: "r = [] \<or> (\<not> is_digit (hd r) \<and> hd r \<noteq> CHR ''.'')"
          using r False by blast
        have "length r < length t"
          using t dne by simp
        moreover have "\<not> dot_chain r"
          using 1(2) rsuf dot_chain_suffix by blast
        ultimately have "calm (truncate_decimals r)"
          by (rule IH)
        with ds truncate_decimals_hd [OF rr] show ?thesis
          unfolding td by (rule calm_digits)
      next
        case point: True
        then obtain f where rf: "r = ''.'' @ f"
          by (cases r) auto
        obtain fd f' where f: "f = fd @ f'" and fd: "list_all is_digit fd"
          and f': "f' = [] \<or> \<not> is_digit (hd f')" and fdt: "fd = takeWhile is_digit f"
          and f't: "f' = dropWhile is_digit f"
          by (rule digits_split)
        have "\<not> dot_chain r"
          using 1(2) rsuf dot_chain_suffix by blast
        then have "\<not> (f' \<noteq> [] \<and> hd f' = CHR ''.'')"
        proof (rule contrapos_nn)
          assume "f' \<noteq> [] \<and> hd f' = CHR ''.''"
          then obtain x where "f' = ''.'' @ x"
            by (cases f') auto
          with rf f have "r = ''.'' @ fd @ ''.'' @ x"
            by simp
          with fd show "dot_chain r"
            by (simp only: dot_chain_point)
        qed
        with f' have ff: "f' = [] \<or> (\<not> is_digit (hd f') \<and> hd f' \<noteq> CHR ''.'')"
          by blast
        have f'suf: "suffix f' t"
          using t rf f by (simp add: suffix_def)
        have "length f' < length t"
          using t rf f by simp
        moreover have "\<not> dot_chain f'"
          using 1(2) f'suf dot_chain_suffix by blast
        ultimately have cf: "calm (truncate_decimals f')"
          by (rule IH)
        note hf = truncate_decimals_hd [OF ff]
        show ?thesis
        proof (cases "5 \<le> length fd")
          case True
          have "decimal_at (ds @ r) = Some (ds @ ''.'' @ take 4 f, f')"
            using run point True rf fdt f't by simp
          then have td: "truncate_decimals t = (ds @ ''.'' @ take 4 f) @ truncate_decimals f'"
            unfolding t by (rule truncate_decimals_hit)
          have "take 4 f = take 4 fd"
            using True f by simp
          moreover have "list_all is_digit (take 4 fd)"
            using fd by (auto simp: list_all_iff dest: in_set_takeD)
          ultimately have "list_all is_digit (take 4 f)" and "length (take 4 f) \<le> 4"
            by simp_all
          with ds have "calm (ds @ ''.'' @ take 4 f @ truncate_decimals f')"
            using hf cf by (rule calm_kept)
          then show ?thesis
            unfolding td by simp
        next
          case False
          then have none: "decimal_at (ds @ r) = None"
            using run rf fdt by simp
          have "truncate_decimals t = ds @ truncate_decimals r"
            unfolding t using ds r none by (intro truncate_decimals_run) simp_all
          moreover have "truncate_decimals r = ''.'' @ truncate_decimals f"
            unfolding rf by (simp add: truncate_decimals_other point_not_digit)
          moreover have "truncate_decimals f = fd @ truncate_decimals f'"
            unfolding f using fd f'
          proof (rule truncate_decimals_run)
            show "fd \<noteq> [] \<longrightarrow> decimal_at (fd @ f') = None"
              using decimal_at_digits_only [OF fd ff] by simp
          qed
          ultimately have td: "truncate_decimals t = ds @ ''.'' @ fd @ truncate_decimals f'"
            by simp
          have "length fd \<le> 4"
            using False by simp
          with ds fd have "calm (ds @ ''.'' @ fd @ truncate_decimals f')"
            using hf cf by (rule calm_kept)
          then show ?thesis
            unfolding td .
        qed
      qed
    qed
  qed
qed

lemma marker_hd:
  assumes "x = [] \<or> (\<not> is_digit (hd x) \<and> hd x \<noteq> CHR ''.'')"
  shows "replace_str ''_fakeogcapi'' ''request'' x = [] \<or>
         (\<not> is_digit (hd (replace_str ''_fakeogcapi'' ''request'' x))
          \<and> hd (replace_str ''_fakeogcapi'' ''request'' x) \<noteq> CHR ''.'')"
proof (cases x)
  case Nil
  then show ?thesis
    by (simp add: marker_Nil)
next
  case (Cons c cs)
  show ?thesis
  proof (cases "prefix ''_fakeogcapi'' x")
    case True
    then obtain t where "x = ''_fakeogcapi'' @ t"
      by (auto simp: prefix_def)
    then show ?thesis
      by (simp only: marker_hit) (simp add: is_digit_def)
  next
    case False
    with assms Cons show ?thesis
      by (simp add: marker_miss)
  qed
qed

lemma marker_hd_nondigit:
  assumes "x = [] \<or> \<not> is_digit (hd x)"
  shows "replace_str ''_fakeogcapi'' ''request'' x = [] \<or>
         \<not> is_digit (hd (replace_str ''_fakeogcapi'' ''request'' x))"
proof (cases x)
  case Nil
  then show ?thesis
    by (simp add: marker_Nil)
next
  case (Cons c cs)
  show ?thesis
  proof (cases "prefix ''_fakeogcapi'' x")
    case True
    then obtain t where "x = ''_fakeogcapi'' @ t"
      by (auto simp: prefix_def)
    then show ?thesis
      by (simp only: marker_hit) (simp add: is_digit_def)
  next
    case False
    with assms Cons show ?thesis
      by (simp add: marker_miss)
  qed
qed

lemma marker_digits:
  assumes "list_all is_digit ds"
  shows "replace_str ''_fakeogcapi'' ''request'' (ds @ x)
       = ds @ replace_str ''_fakeogcapi'' ''request'' x"
proof (rule marker_skip)
  show "CHR ''_'' \<notin> set ds"
    using assms digit_plain(2) by (auto simp: list_all_iff)
qed

lemma decimal_at_nondigit: "y = [] \<or> \<not> is_digit (hd y) \<Longrightarrow> decimal_at y = None"
  by (cases y) (simp_all add: decimal_at_Nil decimal_at_other)

lemma decimal_at_marker:
  assumes "decimal_at u = None"
  shows "decimal_at (replace_str ''_fakeogcapi'' ''request'' u) = None"
proof -
  obtain ds r where u: "u = ds @ r" and ds: "list_all is_digit ds"
    and r: "r = [] \<or> \<not> is_digit (hd r)"
    by (rule digits_split)
  show ?thesis
  proof (cases "ds = []")
    case True
    with u r have "u = [] \<or> \<not> is_digit (hd u)"
      by simp
    then have "replace_str ''_fakeogcapi'' ''request'' u = []
        \<or> \<not> is_digit (hd (replace_str ''_fakeogcapi'' ''request'' u))"
      by (rule marker_hd_nondigit)
    then show ?thesis
      by (rule decimal_at_nondigit)
  next
    case dne: False
    note run = decimal_at_run [OF ds dne r]
    have out: "replace_str ''_fakeogcapi'' ''request'' u
        = ds @ replace_str ''_fakeogcapi'' ''request'' r"
      unfolding u using ds by (rule marker_digits)
    show ?thesis
    proof (cases "r \<noteq> [] \<and> hd r = CHR ''.''")
      case False
      with r have "r = [] \<or> (\<not> is_digit (hd r) \<and> hd r \<noteq> CHR ''.'')"
        by blast
      then have "replace_str ''_fakeogcapi'' ''request'' r = [] \<or>
         (\<not> is_digit (hd (replace_str ''_fakeogcapi'' ''request'' r))
          \<and> hd (replace_str ''_fakeogcapi'' ''request'' r) \<noteq> CHR ''.'')"
        by (rule marker_hd)
      with ds have "decimal_at (ds @ replace_str ''_fakeogcapi'' ''request'' r) = None"
        by (rule decimal_at_digits_only)
      then show ?thesis
        unfolding out .
    next
      case True
      then obtain f where rf: "r = CHR ''.'' # f"
        by (cases r) auto
      obtain fd f' where f: "f = fd @ f'" and fd: "list_all is_digit fd"
        and f': "f' = [] \<or> \<not> is_digit (hd f')" and fdt: "fd = takeWhile is_digit f"
        by (rule digits_split)
      have "\<not> 5 \<le> length (takeWhile is_digit (tl r))"
      proof
        assume "5 \<le> length (takeWhile is_digit (tl r))"
        with True run have "decimal_at (ds @ r) \<noteq> None"
          by simp
        with assms u show False
          by simp
      qed
      then have few: "length fd \<le> 4"
        by (simp add: rf fdt)
      have nd: "replace_str ''_fakeogcapi'' ''request'' f' = []
          \<or> \<not> is_digit (hd (replace_str ''_fakeogcapi'' ''request'' f'))"
        using f' by (rule marker_hd_nondigit)
      have "replace_str ''_fakeogcapi'' ''request'' (CHR ''.'' # fd @ f')
          = CHR ''.'' # replace_str ''_fakeogcapi'' ''request'' (fd @ f')"
        by (rule marker_other) simp
      also have "\<dots> = CHR ''.'' # fd @ replace_str ''_fakeogcapi'' ''request'' f'"
        using fd by (simp only: marker_digits)
      finally have "replace_str ''_fakeogcapi'' ''request'' r
          = ''.'' @ fd @ replace_str ''_fakeogcapi'' ''request'' f'"
        unfolding rf f by simp
      moreover have "decimal_at (ds @ ''.'' @ fd @ replace_str ''_fakeogcapi'' ''request'' f') = None"
        using ds fd few nd by (rule decimal_at_few)
      ultimately show ?thesis
        unfolding out by (simp only:)
    qed
  qed
qed

lemma calm_marker: "calm u \<Longrightarrow> calm (replace_str ''_fakeogcapi'' ''request'' u)"
proof (induction u rule: length_induct)
  case (1 u)
  note IH = 1(1) [rule_format]
  show ?case
  proof (cases u)
    case Nil
    then show ?thesis
      by (simp add: marker_Nil)
  next
    case (Cons c cs)
    show ?thesis
    proof (cases "prefix ''_fakeogcapi'' u")
      case True
      then obtain t where t: "u = ''_fakeogcapi'' @ t"
        by (auto simp: prefix_def)
      have "calm t"
        using 1(2) unfolding t by (rule calm_behind)
      moreover have "length t < length u"
        using t by simp
      ultimately have "calm (replace_str ''_fakeogcapi'' ''request'' t)"
        using IH by blast
      then have "calm (''request'' @ replace_str ''_fakeogcapi'' ''request'' t)"
        by (intro calm_nondigits) (simp_all add: is_digit_def)
      then show ?thesis
        unfolding t by (simp only: marker_hit)
    next
      case False
      have "decimal_at u = None" and "calm cs"
        using 1(2) Cons by simp_all
      then have "decimal_at (replace_str ''_fakeogcapi'' ''request'' u) = None"
        and "calm (replace_str ''_fakeogcapi'' ''request'' cs)"
        using IH [of cs] Cons by (simp_all add: decimal_at_marker)
      with False Cons show ?thesis
        by (simp add: marker_miss)
    qed
  qed
qed

lemma fill_reserved_digit: "is_digit (if c \<in> set reserved_chars then CHR ''_'' else c) = is_digit c"
  by (auto simp: is_digit_def reserved_chars_def)

lemma fill_reserved_point:
  "(if c \<in> set reserved_chars then CHR ''_'' else c) = CHR ''.'' \<longleftrightarrow> c = CHR ''.''"
  by (auto simp: reserved_chars_def)

lemma dot_chain_fill_reserved: "dot_chain (fill_reserved s) = dot_chain s"
proof -
  define f where "f = (\<lambda>c. if c \<in> set reserved_chars then CHR ''_'' else c)"
  have fp: "f x = CHR ''.'' \<longleftrightarrow> x = CHR ''.''" for x
    unfolding f_def by (rule fill_reserved_point)
  have fd: "is_digit (f x) = is_digit x" for x
    unfolding f_def by (rule fill_reserved_digit)
  have d: "dropWhile is_digit (map f cs) = map f (dropWhile is_digit cs)" for cs
    by (simp add: dropWhile_map comp_def fd)
  have h: "(map f xs \<noteq> [] \<and> hd (map f xs) = CHR ''.'') \<longleftrightarrow> (xs \<noteq> [] \<and> hd xs = CHR ''.'')"
    for xs
    by (cases xs) (simp_all add: fp)
  have "dot_chain (map f s) = dot_chain s"
  proof (induction s)
    case Nil
    then show ?case by simp
  next
    case (Cons c cs)
    have "dot_chain (map f (c # cs))
        = ((f c = CHR ''.'' \<and> map f (dropWhile is_digit cs) \<noteq> []
            \<and> hd (map f (dropWhile is_digit cs)) = CHR ''.'')
           \<or> dot_chain (map f cs))"
      by (simp only: list.map dot_chain.simps d)
    also have "\<dots> = ((c = CHR ''.'' \<and> dropWhile is_digit cs \<noteq> []
            \<and> hd (dropWhile is_digit cs) = CHR ''.'')
           \<or> dot_chain cs)"
      using h [of "dropWhile is_digit cs"] by (simp only: fp Cons.IH)
    also have "\<dots> = dot_chain (c # cs)"
      by (simp only: dot_chain.simps)
    finally show ?case .
  qed
  then show ?thesis
    by (simp only: fill_reserved_def f_def)
qed

lemma fill_reserved_id: "\<forall>c\<in>set v. c \<notin> set reserved_chars \<Longrightarrow> fill_reserved v = v"
  by (induction v) (simp_all add: fill_reserved_def)

lemma sanitize_url_fixed:
  assumes "\<not> dot_chain s"
  shows "sanitize_url (sanitize_url s) = sanitize_url s"
proof -
  define v where "v = sanitize_url s"
  have "\<not> dot_chain (fill_reserved s)"
    using assms by (simp add: dot_chain_fill_reserved)
  then have "calm (truncate_decimals (fill_reserved s))"
    by (rule calm_truncate_decimals)
  then have "calm v"
    unfolding v_def sanitize_url_closed by (rule calm_marker)
  then have td: "truncate_decimals v = v"
    by (rule calm_fixed)
  have "\<forall>c\<in>set v. c \<notin> set reserved_chars"
    unfolding v_def using sanitize_url_clean by blast
  then have fill: "fill_reserved v = v"
    by (rule fill_reserved_id)
  have "\<not> sublist ''_fakeogcapi'' v"
    unfolding v_def sanitize_url_closed by (rule marker_gone)
  then have "replace_str ''_fakeogcapi'' ''request'' v = v"
    by (rule marker_absent_id)
  then have "sanitize_url v = v"
    by (simp add: sanitize_url_closed fill td)
  then show ?thesis
    unfolding v_def .
qed

lemma chain_first: "sanitize_url ''1.234567.891234'' = ''1.2345.891234''"
  by (simp add: sanitize_url_closed fill_reserved_def reserved_chars_def truncate_decimals.simps
        decimal_at_def is_digit_def marker_other marker_Nil)

lemma chain_second: "sanitize_url ''1.2345.891234'' = ''1.2345.8912''"
  by (simp add: sanitize_url_closed fill_reserved_def reserved_chars_def truncate_decimals.simps
        decimal_at_def is_digit_def marker_other marker_Nil)

section \<open>Key derivation: deriving a key again\<close>

text \<open>
  Claim C9, as the code has it. Where no two points of the path have only digits between
  them, the derived key is a fixed point of key derivation: no decimal number is left in
  it that the pattern would match. In every key no reserved character and no marker
  \<^verbatim>\<open>_fakeogcapi\<close> is left.
\<close>

theorem sanitize_url_idempotent:
  "(\<not> dot_chain s \<longrightarrow>
      sanitize_url (sanitize_url s) = sanitize_url s
      \<and> re_sub REPLACE_PRECISION_RE [Ref1] (sanitize_url s) = sanitize_url s)
   \<and> (\<forall>c\<in>set (sanitize_url s). c \<notin> set ''&#/?=:,()'')
   \<and> \<not> sublist ''_fakeogcapi'' (sanitize_url s)"
proof -
  have "re_sub REPLACE_PRECISION_RE [Ref1] (sanitize_url s) = sanitize_url s"
    if "\<not> dot_chain s"
  proof -
    have "\<not> dot_chain (fill_reserved s)"
      using that by (simp add: dot_chain_fill_reserved)
    then have "calm (truncate_decimals (fill_reserved s))"
      by (rule calm_truncate_decimals)
    then have "calm (sanitize_url s)"
      unfolding sanitize_url_closed by (rule calm_marker)
    then show ?thesis
      unfolding re_sub_precision by (rule calm_fixed)
  qed
  moreover have "\<forall>c\<in>set (sanitize_url s). c \<notin> set ''&#/?=:,()''"
    using sanitize_url_clean [of _ s] unfolding reserved_chars_def by blast
  moreover have "\<not> sublist ''_fakeogcapi'' (sanitize_url s)"
    unfolding sanitize_url_closed by (rule marker_gone)
  ultimately show ?thesis
    using sanitize_url_fixed [of s] by blast
qed

text \<open>Claim C9, an instance: a synthetic path with a bounding box.\<close>

theorem sanitize_url_idempotent_witness:
  "\<not> dot_chain ''/fakeogcapi/x?bbox=53.54219999,1.5''
   \<and> sanitize_url (sanitize_url ''/fakeogcapi/x?bbox=53.54219999,1.5'')
       = sanitize_url ''/fakeogcapi/x?bbox=53.54219999,1.5''
   \<and> \<not> sublist ''_fakeogcapi'' (sanitize_url ''/fakeogcapi/x?bbox=53.54219999,1.5'')"
proof -
  have "\<not> dot_chain ''/fakeogcapi/x?bbox=53.54219999,1.5''"
    by (simp add: is_digit_def)
  then show ?thesis
    using sanitize_url_idempotent [of "''/fakeogcapi/x?bbox=53.54219999,1.5''"] by blast
qed

text \<open>
  Claim C9 as the specification states it fails on a dotted chain: the key of
  \<^verbatim>\<open>1.234567.891234\<close> holds six digits behind its second point, and deriving a key
  from that key cuts them.
\<close>

theorem sanitize_url_idempotent_counterexample:
  "sanitize_url ''1.234567.891234'' = ''1.2345.891234''
   \<and> sanitize_url (sanitize_url ''1.234567.891234'') = ''1.2345.8912''
   \<and> sanitize_url (sanitize_url ''1.234567.891234'') \<noteq> sanitize_url ''1.234567.891234''"
  by (simp add: chain_first chain_second)

end
